theory Spec2Isabelle
  imports Complex_Main "HOL-Library.Multiset" "HOL-Library.Log_Nat"
begin


section \<open>JavaScript numbers and arrays\<close>

text \<open>
  The statistics of the arena are JavaScript numbers held in arrays created by
  \<^verbatim>\<open>new Array(n).fill(0)\<close>.  A cell is \<open>Num q\<close> (a number, given by its exact value
  \<open>q\<close>), \<open>NaN\<close>, or \<open>Undefined\<close> (a hole, or an index beyond the end).  The counts
  and point totals are integers far below \<open>2^53\<close>, so their sums are exact; quotients
  and products are rounded to the nearest double, as \<open>binary64\<close> below has it.  An array is the function from
  indices to cells: reading beyond the end gives \<open>Undefined\<close>, writing beyond the end
  extends the array, as JavaScript does.  The \<^verbatim>\<open>length\<close> of these arrays is never read
  by the code below (all loops run to \<^verbatim>\<open>this.bots.length\<close>), so it is not recorded.
\<close>

datatype jsval = Undefined | NaN | Num rat

type_synonym jsarray = "nat \<Rightarrow> jsval"

text \<open>\<^verbatim>\<open>new Array(n).fill(v)\<close>\<close>

definition array_fill :: "nat \<Rightarrow> jsval \<Rightarrow> jsarray" where
  "array_fill n v = (\<lambda>i. if i < n then v else Undefined)"

text \<open>\<^verbatim>\<open>a + b\<close> on numbers and \<^verbatim>\<open>undefined\<close>: anything but two numbers gives \<^verbatim>\<open>NaN\<close>.\<close>

fun js_add :: "jsval \<Rightarrow> jsval \<Rightarrow> jsval" where
  "js_add (Num a) (Num b) = Num (a + b)"
| "js_add _ _ = NaN"

text \<open>\<^verbatim>\<open>x++\<close>: the new value of the cell.\<close>

fun js_inc :: "jsval \<Rightarrow> jsval" where
  "js_inc (Num a) = Num (a + 1)"
| "js_inc _ = NaN"

text \<open>\<^verbatim>\<open>x > 0\<close>: false for \<^verbatim>\<open>NaN\<close> and \<^verbatim>\<open>undefined\<close>.\<close>

fun js_gt0 :: "jsval \<Rightarrow> bool" where
  "js_gt0 (Num a) = (0 < a)"
| "js_gt0 _ = False"

text \<open>
  The arithmetic of doubles (IEEE 754 binary64, rounding to nearest, ties to even).
  \<open>round_half_even x\<close> is the integer nearest to \<open>x\<close>, the even one of two equally
  near.  \<open>floor_log2 a\<close> is the exponent \<open>e\<close> with \<open>2^e \<le> a < 2^(e+1)\<close> for a positive
  \<open>a\<close>, found from the bit lengths of numerator and denominator.  \<open>binary64 q\<close> is the
  double nearest to \<open>q\<close>: a multiple of \<open>2^(e-52)\<close>, and of \<open>2^(-1074)\<close> for the
  subnormal numbers.  Magnitudes from \<open>2^1024\<close> on, which are infinities in
  JavaScript, do not arise from the counts of the arena and are not represented.
\<close>

definition round_half_even :: "rat \<Rightarrow> int" where
  "round_half_even x =
     (let f = \<lfloor>x\<rfloor>; r = x - of_int f
      in if r < 1 / 2 then f else if 1 / 2 < r then f + 1 else if even f then f else f + 1)"

definition floor_log2 :: "rat \<Rightarrow> int" where
  "floor_log2 a =
     (let k = bitlen (fst (quotient_of a)) - bitlen (snd (quotient_of a))
      in if 2 powi k \<le> a then k else k - 1)"

definition binary64 :: "rat \<Rightarrow> rat" where
  "binary64 q =
     (if q = 0 then 0
      else let a = \<bar>q\<bar>;
               u = max (floor_log2 a - 52) (- 1074);
               m = round_half_even (a / 2 powi u)
           in sgn q * of_int m * 2 powi u)"

text \<open>
  \<^verbatim>\<open>a / b\<close>: the exact quotient rounded to a double.  Every division below is guarded
  by \<^verbatim>\<open>b > 0\<close>; the quotient by zero (an infinity or \<^verbatim>\<open>NaN\<close> in JavaScript) is never
  computed and is given as \<open>NaN\<close> here.
\<close>

fun js_div :: "jsval \<Rightarrow> jsval \<Rightarrow> jsval" where
  "js_div (Num a) (Num b) = (if b = 0 then NaN else Num (binary64 (a / b)))"
| "js_div _ _ = NaN"

text \<open>\<^verbatim>\<open>a[i]++\<close> and \<^verbatim>\<open>a[i] += v\<close>\<close>

definition arr_inc :: "jsarray \<Rightarrow> nat \<Rightarrow> jsarray" where
  "arr_inc a i = a(i := js_inc (a i))"

definition arr_add :: "jsarray \<Rightarrow> nat \<Rightarrow> jsval \<Rightarrow> jsarray" where
  "arr_add a i v = a(i := js_add (a i) v)"


text \<open>\<^verbatim>\<open>a * b\<close>: the exact product rounded to a double.\<close>

fun js_mul :: "jsval \<Rightarrow> jsval \<Rightarrow> jsval" where
  "js_mul (Num a) (Num b) = Num (binary64 (a * b))"
| "js_mul _ _ = NaN"

text \<open>
  Errors thrown by the code: \<^verbatim>\<open>new Error(message)\<close>, and the \<^verbatim>\<open>TypeError\<close> of reading a
  property of \<^verbatim>\<open>undefined\<close> or \<^verbatim>\<open>null\<close>, and the event object a worker's \<^verbatim>\<open>error\<close>
  listener rejects with.
\<close>

datatype js_error = Error string | TypeError | ErrorEvent

text \<open>
  The template literal \<^verbatim>\<open>${n}\<close> of a non-negative integer: its decimal digits.
\<close>

definition digit_char :: "nat \<Rightarrow> char" where
  "digit_char d = ''0123456789'' ! d"

function string_of_nat :: "nat \<Rightarrow> string" where
  "string_of_nat n =
     (if n < 10 then [digit_char n] else string_of_nat (n div 10) @ [digit_char (n mod 10)])"
  by pat_completeness auto
termination
  by (relation "measure id") auto

declare string_of_nat.simps [simp del]

section \<open>State of the AI worker proxy (AIWorkerProxy)\<close>

text \<open>
  The records of the proxy, the controller and the pool are declared first; their
  operations follow in the later sections.

  Messages the proxy posts to its worker, and messages it receives, by \<^verbatim>\<open>type\<close>:
  \<^verbatim>\<open>COMPUTE_AI_ACTION\<close> carries the request id, the game state, the player, the
  difficulty and the time limit; \<^verbatim>\<open>AI_ACTION_RESULT\<close> the request id and the action
  (its \<^verbatim>\<open>stats\<close> are only logged); \<^verbatim>\<open>AI_ERROR\<close> the request id and the error text.
\<close>

datatype to_worker =
    INIT string
  | COMPUTE_AI_ACTION string string nat nat rat
  | SET_DIFFICULTY nat
  | SET_TIME_LIMIT rat
  | SET_DEBUG_MODE bool

datatype proxy_message =
    AI_ACTION_RESULT string string
  | AI_ERROR string string
  | PROGRESS nat
  | READY
  | UNKNOWN string

text \<open>How the promise of a request was settled.\<close>

datatype settlement = Resolved string | Rejected js_error

text \<open>
  The fields of the proxy.  \<open>worker\<close> and \<open>fallbackWasm\<close> say whether the field holds
  an object, \<open>progressCallback\<close> whether it holds a function.  \<open>pendingRequests\<close> is
  the \<^verbatim>\<open>Map\<close> from request id to the entry of the request, in insertion order; of
  an entry \<^verbatim>\<open>{ resolve, reject, timeout }\<close> the timer handle is kept, the two
  functions being those of the promise of that request.  Game states and actions are
  opaque values, kept as their JSON text.

  The last five fields are the surroundings: the clock \<open>now\<close> in milliseconds, the
  armed timers of \<^verbatim>\<open>setTimeout\<close> (handle, the request id its callback closes over,
  the time it is due), the next timer handle, the messages posted to the worker,
  and the settlements of the request promises (request id and outcome) in order.
\<close>

record proxy =
  worker :: bool
  isReady :: bool
  pendingRequests :: "(string \<times> nat) list"
  requestIdCounter :: nat
  progressCallback :: bool
  useWorker :: bool
  difficulty :: nat
  timeLimit :: rat
  debugMode :: bool
  fallbackWasm :: bool
  now :: nat
  timers :: "(nat \<times> string \<times> nat) list"
  nextTimer :: nat
  sent :: "to_worker list"
  settled :: "(string \<times> settlement) list"

section \<open>Bots and matchup tasks (ArenaController)\<close>

record weights =
  vpWeights :: "rat list"
  gemWeights :: "rat list"
  demandMultiplier :: rat
  bonusMultiplier :: rat
  gemMultiplier :: rat
  winReward :: rat
  lossReward :: rat

text \<open>The configuration object \<^verbatim>\<open>getBotConfig\<close> builds for a worker.\<close>

record bot_config =
  name :: string
  explorationParam :: rat
  timeLimit :: rat
  iterationsLimit :: rat
  weights :: weights

text \<open>
  An entry of \<^verbatim>\<open>this.bots\<close>, with the fields \<^verbatim>\<open>getBotConfig\<close> reads.  A profile bot
  carries the name of its profile; a custom bot carries its own exploration
  parameter and weights.
\<close>

record bot =
  name :: string
  isProfile :: bool
  profile :: string
  explorationParam :: rat
  weights :: weights

text \<open>A task of the worker pool: one matchup of \<^verbatim>\<open>gamesPerMatchup\<close> games.\<close>

record task =
  matchupId :: string
  bot1 :: bot_config
  bot2 :: bot_config
  bot1Index :: nat
  bot2Index :: nat
  gamesPerMatchup :: nat

text \<open>
  What a table cell shows: the string of \<^verbatim>\<open>x.toFixed(1)\<close> (a decimal with one
  fractional digit, given by its value), the string \<^verbatim>\<open>"NaN"\<close>, or \<^verbatim>\<open>'N/A'\<close>.
\<close>

datatype display = Fixed1 rat | NaN_text | NA

text \<open>A row of \<^verbatim>\<open>calculateWinRates\<close>.\<close>

record stats_row =
  name :: string
  wins :: jsval
  losses :: jsval
  gamesPlayed :: jsval
  winRate :: jsval
  avgPoints :: display
  avgGameLength :: display
  avgWinTurns :: display

section \<open>Match results and their aggregation (ArenaController.aggregateResults)\<close>

text \<open>One game as the arena engine reports it.\<close>

record game =
  bot1Index :: nat
  bot2Index :: nat
  winner :: int
  turnCount :: int
  bot1Points :: int
  bot2Points :: int

text \<open>
  An entry \<^verbatim>\<open>{ matchupId, results }\<close> of the list the worker pool resolves with:
  the identity of the task and the games it played.
\<close>

type_synonym matchup_result = "string \<times> game list"

record arena_results =
  bot_names :: "string list"
  matches :: "game list"
  wins :: jsarray
  losses :: jsarray
  gamesPlayed :: jsarray
  totalPoints :: jsarray
  totalWinTurns :: jsarray
  avgGameLength :: jsarray
  avgPointsScored :: jsarray
  avgWinTurns :: jsarray

definition empty_results :: "string list \<Rightarrow> arena_results" where
  "empty_results names =
     \<lparr> bot_names = names,
       matches = [],
       wins = array_fill (length names) (Num 0),
       losses = array_fill (length names) (Num 0),
       gamesPlayed = array_fill (length names) (Num 0),
       totalPoints = array_fill (length names) (Num 0),
       totalWinTurns = array_fill (length names) (Num 0),
       avgGameLength = array_fill (length names) (Num 0),
       avgPointsScored = array_fill (length names) (Num 0),
       avgWinTurns = array_fill (length names) (Num 0) \<rparr>"

text \<open>The body of the inner \<^verbatim>\<open>forEach\<close>: one game folded into the accumulators.\<close>

definition aggregate_game :: "game \<Rightarrow> arena_results \<Rightarrow> arena_results" where
  "aggregate_game g r =
     (let bot1Idx = bot1Index g;
          bot2Idx = bot2Index g;
          r = r\<lparr>matches := matches r @ [g]\<rparr>;
          r = r\<lparr>gamesPlayed := arr_inc (gamesPlayed r) bot1Idx\<rparr>;
          r = r\<lparr>gamesPlayed := arr_inc (gamesPlayed r) bot2Idx\<rparr>;
          r = (if winner g = 0 then
                 (let r = r\<lparr>wins := arr_inc (wins r) bot1Idx\<rparr>;
                      r = r\<lparr>losses := arr_inc (losses r) bot2Idx\<rparr>
                  in r\<lparr>totalWinTurns :=
                         arr_add (totalWinTurns r) bot1Idx (Num (of_int (turnCount g)))\<rparr>)
               else
                 (let r = r\<lparr>losses := arr_inc (losses r) bot1Idx\<rparr>;
                      r = r\<lparr>wins := arr_inc (wins r) bot2Idx\<rparr>
                  in r\<lparr>totalWinTurns :=
                         arr_add (totalWinTurns r) bot2Idx (Num (of_int (turnCount g)))\<rparr>));
          r = r\<lparr>totalPoints := arr_add (totalPoints r) bot1Idx (Num (of_int (bot1Points g)))\<rparr>
      in r\<lparr>totalPoints := arr_add (totalPoints r) bot2Idx (Num (of_int (bot2Points g)))\<rparr>)"

text \<open>\<^verbatim>\<open>matchupResults.forEach(matchup => matchup.results.forEach(game => ...))\<close>\<close>

definition collect_matches :: "matchup_result list \<Rightarrow> arena_results \<Rightarrow> arena_results" where
  "collect_matches matchupResults r =
     fold (\<lambda>matchup. fold aggregate_game (snd matchup)) matchupResults r"

text \<open>The local array \<^verbatim>\<open>totalTurns\<close>, summed over \<^verbatim>\<open>results.matches\<close>.\<close>

definition add_turns :: "game \<Rightarrow> jsarray \<Rightarrow> jsarray" where
  "add_turns g totalTurns =
     arr_add (arr_add totalTurns (bot1Index g) (Num (of_int (turnCount g))))
       (bot2Index g) (Num (of_int (turnCount g)))"

definition total_turns :: "nat \<Rightarrow> game list \<Rightarrow> jsarray" where
  "total_turns n ms = fold add_turns ms (array_fill n (Num 0))"

text \<open>The body of the loop \<^verbatim>\<open>for (let i = 0; i < this.bots.length; i++)\<close>.\<close>

definition average_bot :: "jsarray \<Rightarrow> nat \<Rightarrow> arena_results \<Rightarrow> arena_results" where
  "average_bot totalTurns i r =
     (let r = (if js_gt0 (gamesPlayed r i) then
                 (let r = r\<lparr>avgPointsScored :=
                            (avgPointsScored r)(i := js_div (totalPoints r i) (gamesPlayed r i))\<rparr>
                  in r\<lparr>avgGameLength :=
                         (avgGameLength r)(i := js_div (totalTurns i) (gamesPlayed r i))\<rparr>)
               else r)
      in if js_gt0 (wins r i) then
           r\<lparr>avgWinTurns := (avgWinTurns r)(i := js_div (totalWinTurns r i) (wins r i))\<rparr>
         else r)"

function average_loop :: "jsarray \<Rightarrow> nat \<Rightarrow> nat \<Rightarrow> arena_results \<Rightarrow> arena_results" where
  "average_loop totalTurns i n r =
     (if i < n then average_loop totalTurns (i + 1) n (average_bot totalTurns i r) else r)"
  by pat_completeness auto
termination
  by (relation "measure (\<lambda>(totalTurns, i, n, r). n - i)") auto

declare average_loop.simps [simp del]

text \<open>
  \<^verbatim>\<open>aggregateResults(matchupResults, gamesPerMatchup)\<close>, with the names of
  \<^verbatim>\<open>this.bots\<close> as a parameter.  The parameter \<^verbatim>\<open>gamesPerMatchup\<close> (here \<open>k\<close>) is
  not used by the body.
\<close>

definition aggregateResults :: "string list \<Rightarrow> matchup_result list \<Rightarrow> nat \<Rightarrow> arena_results" where
  "aggregateResults names matchupResults k =
     (let r = collect_matches matchupResults (empty_results names);
          totalTurns = total_turns (length names) (matches r)
      in average_loop totalTurns 0 (length names) r)"

text \<open>The strict equality \<^verbatim>\<open>a === b\<close> of two cells (\<^verbatim>\<open>NaN\<close> equals nothing).\<close>

fun js_eq :: "jsval \<Rightarrow> jsval \<Rightarrow> bool" where
  "js_eq (Num a) (Num b) = (a = b)"
| "js_eq Undefined Undefined = True"
| "js_eq _ _ = False"

text \<open>The invariant \<^verbatim>\<open>wins[i] + losses[i] == gamesPlayed[i]\<close>, evaluated as JavaScript does.\<close>

definition win_loss_invariant :: "arena_results \<Rightarrow> nat \<Rightarrow> bool" where
  "win_loss_invariant r i = js_eq (js_add (wins r i) (losses r i)) (gamesPlayed r i)"

text \<open>
  What one game does to each accumulator taken alone; the proofs show that
  \<open>aggregate_game\<close> acts on every accumulator as the function given here.
\<close>

definition gamesPlayed_step :: "game \<Rightarrow> jsarray \<Rightarrow> jsarray" where
  "gamesPlayed_step g a = arr_add (arr_add a (bot1Index g) (Num 1)) (bot2Index g) (Num 1)"

definition wins_step :: "game \<Rightarrow> jsarray \<Rightarrow> jsarray" where
  "wins_step g a = arr_add a (if winner g = 0 then bot1Index g else bot2Index g) (Num 1)"

definition losses_step :: "game \<Rightarrow> jsarray \<Rightarrow> jsarray" where
  "losses_step g a = arr_add a (if winner g = 0 then bot2Index g else bot1Index g) (Num 1)"

definition totalWinTurns_step :: "game \<Rightarrow> jsarray \<Rightarrow> jsarray" where
  "totalWinTurns_step g a =
     arr_add a (if winner g = 0 then bot1Index g else bot2Index g) (Num (of_int (turnCount g)))"

definition totalPoints_step :: "game \<Rightarrow> jsarray \<Rightarrow> jsarray" where
  "totalPoints_step g a =
     arr_add (arr_add a (bot1Index g) (Num (of_int (bot1Points g))))
       (bot2Index g) (Num (of_int (bot2Points g)))"

section \<open>Win rates (ArenaController.calculateWinRates)\<close>

text \<open>
  The decimal that \<^verbatim>\<open>x.toFixed(1)\<close> writes for a double of value \<open>x\<close>: \<open>n / 10\<close> for the
  integer \<open>n\<close> that makes \<open>n / 10 - x\<close> closest to zero, the larger \<open>n\<close> of two such
  (for a negative \<open>x\<close>, the negation of what is written for \<open>- x\<close>).  JavaScript
  rounds the exact value of the double, which is what \<open>x\<close> is here.
\<close>

definition round1 :: "rat \<Rightarrow> rat" where
  "round1 x =
     (if x < 0 then - (of_int \<lfloor>- x * 10 + 1 / 2\<rfloor> / 10) else of_int \<lfloor>x * 10 + 1 / 2\<rfloor> / 10)"

text \<open>\<^verbatim>\<open>v.toFixed(1)\<close>: a \<^verbatim>\<open>TypeError\<close> on \<^verbatim>\<open>undefined\<close>.\<close>

fun toFixed1 :: "jsval \<Rightarrow> js_error + display" where
  "toFixed1 (Num q) = Inr (Fixed1 (round1 q))"
| "toFixed1 NaN = Inr NaN_text"
| "toFixed1 Undefined = Inl TypeError"

text \<open>\<^verbatim>\<open>parseFloat(s)\<close> of such a string: the double nearest to the decimal.\<close>

fun parseFloat :: "display \<Rightarrow> jsval" where
  "parseFloat (Fixed1 q) = Num (binary64 q)"
| "parseFloat NaN_text = NaN"
| "parseFloat NA = NaN"

text \<open>
  \<^verbatim>\<open>parseFloat(total > 0 ? (wins / total * 100).toFixed(1) : 0)\<close> with
  \<^verbatim>\<open>total = wins + losses\<close>; \<^verbatim>\<open>parseFloat(0)\<close> is \<^verbatim>\<open>0\<close>.  The quotient is rounded to a
  double, then its product with \<open>100\<close> is.
\<close>

definition win_rate :: "jsval \<Rightarrow> jsval \<Rightarrow> js_error + jsval" where
  "win_rate w l =
     (let total = js_add w l
      in if js_gt0 total then
           (case toFixed1 (js_mul (js_div w total) (Num 100)) of
              Inl e \<Rightarrow> Inl e
            | Inr s \<Rightarrow> Inr (parseFloat s))
         else Inr (Num 0))"

text \<open>The callback of \<^verbatim>\<open>this.results.bots.map((bot, idx) => ...)\<close>.\<close>

definition stats_row_of :: "arena_results \<Rightarrow> string \<Rightarrow> nat \<Rightarrow> js_error + stats_row" where
  "stats_row_of r bot_name idx =
     (let w = arena_results.wins r idx;
          l = arena_results.losses r idx;
          gp = arena_results.gamesPlayed r idx
      in case win_rate w l of
           Inl e \<Rightarrow> Inl e
         | Inr rate \<Rightarrow>
             (case (if js_gt0 (arena_results.avgWinTurns r idx)
                    then toFixed1 (arena_results.avgWinTurns r idx) else Inr NA) of
                Inl e \<Rightarrow> Inl e
              | Inr awt \<Rightarrow>
                  (case toFixed1 (avgPointsScored r idx) of
                     Inl e \<Rightarrow> Inl e
                   | Inr ap \<Rightarrow>
                       (case toFixed1 (arena_results.avgGameLength r idx) of
                          Inl e \<Rightarrow> Inl e
                        | Inr agl \<Rightarrow>
                            Inr \<lparr> stats_row.name = bot_name,
                                  stats_row.wins = w,
                                  stats_row.losses = l,
                                  stats_row.gamesPlayed = gp,
                                  winRate = rate,
                                  avgPoints = ap,
                                  stats_row.avgGameLength = agl,
                                  stats_row.avgWinTurns = awt \<rparr>))))"

fun map_rows :: "arena_results \<Rightarrow> string list \<Rightarrow> nat \<Rightarrow> js_error + stats_row list" where
  "map_rows r [] idx = Inr []"
| "map_rows r (b # bs) idx =
     (case stats_row_of r b idx of
        Inl e \<Rightarrow> Inl e
      | Inr row \<Rightarrow>
          (case map_rows r bs (idx + 1) of
             Inl e \<Rightarrow> Inl e
           | Inr rows \<Rightarrow> Inr (row # rows)))"

text \<open>
  \<^verbatim>\<open>calculateWinRates()\<close>, with \<^verbatim>\<open>this.results\<close> as a parameter: \<open>None\<close> is the
  \<^verbatim>\<open>null\<close> returned when there are no results.
\<close>

definition calculateWinRates :: "arena_results option \<Rightarrow> (js_error + stats_row list) option" where
  "calculateWinRates results =
     (case results of
        None \<Rightarrow> None
      | Some r \<Rightarrow> Some (map_rows r (bot_names r) 0))"

section \<open>Round-robin scheduling (ArenaController.runTournamentParallel)\<close>

text \<open>
  \<^verbatim>\<open>getProfiles()\<close>: the exploration parameter of each predefined profile (the other
  fields of a profile are not read by \<^verbatim>\<open>getBotConfig\<close>).
\<close>

definition getProfiles :: "(string \<times> rat) list" where
  "getProfiles =
     [(''Balanced'', 241 / 10), (''Aggressive'', 30), (''Economic'', 20), (''Flexible'', 40)]"

definition getDefaultWeights :: weights where
  "getDefaultWeights =
     \<lparr> vpWeights = [0, 10, 20, 30, 40, 60, 80, 200, 500, 700, 900, 1500, 2000, 3000, 10000, 100000],
       gemWeights = [0, 10, 19, 27, 34, 40, 45, 49, 52, 55, 57, 59, 60, 61, 62, 63, 64, 65, 66,
                     67, 68, 69, 70],
       demandMultiplier = - 1,
       bonusMultiplier = 18,
       gemMultiplier = 1 / 2,
       winReward = 100000,
       lossReward = - 100000 \<rparr>"

text \<open>
  \<^verbatim>\<open>getBotConfig(index)\<close>, with \<^verbatim>\<open>this.globalTimeLimit\<close>,
  \<^verbatim>\<open>this.globalIterationsLimit\<close> and \<^verbatim>\<open>this.bots\<close> as parameters.  Reading a field of
  a missing bot, or of a profile that is not in the table, throws a \<^verbatim>\<open>TypeError\<close>.
\<close>

definition getBotConfig :: "rat \<Rightarrow> rat \<Rightarrow> bot list \<Rightarrow> nat \<Rightarrow> js_error + bot_config" where
  "getBotConfig globalTimeLimit globalIterationsLimit bots index =
     (if index < length bots then
        (let b = bots ! index
         in if isProfile b then
              (case map_of getProfiles (profile b) of
                 None \<Rightarrow> Inl TypeError
               | Some ep \<Rightarrow>
                   Inr \<lparr> bot_config.name = bot.name b,
                         bot_config.explorationParam = ep,
                         timeLimit = globalTimeLimit,
                         iterationsLimit = globalIterationsLimit,
                         bot_config.weights = getDefaultWeights \<rparr>)
            else
              Inr \<lparr> bot_config.name = bot.name b,
                    bot_config.explorationParam = bot.explorationParam b,
                    timeLimit = globalTimeLimit,
                    iterationsLimit = globalIterationsLimit,
                    bot_config.weights = bot.weights b \<rparr>)
      else Inl TypeError)"

text \<open>The task pushed for the pair \<open>(i, j)\<close>.\<close>

definition make_task :: "bot_config \<Rightarrow> bot_config \<Rightarrow> nat \<Rightarrow> nat \<Rightarrow> nat \<Rightarrow> task" where
  "make_task c1 c2 i j k =
     \<lparr> matchupId = ''bot'' @ string_of_nat i @ ''_vs_bot'' @ string_of_nat j,
       bot1 = c1,
       bot2 = c2,
       task.bot1Index = i,
       task.bot2Index = j,
       gamesPerMatchup = k \<rparr>"

text \<open>The inner loop \<^verbatim>\<open>for (let j = i + 1; j < this.bots.length; j++)\<close>.\<close>

function tasks_inner ::
  "rat \<Rightarrow> rat \<Rightarrow> bot list \<Rightarrow> nat \<Rightarrow> nat \<Rightarrow> nat \<Rightarrow> task list \<Rightarrow> js_error + task list" where
  "tasks_inner gtl gil bots k i j tasks =
     (if j < length bots then
        (case getBotConfig gtl gil bots i of
           Inl e \<Rightarrow> Inl e
         | Inr c1 \<Rightarrow>
             (case getBotConfig gtl gil bots j of
                Inl e \<Rightarrow> Inl e
              | Inr c2 \<Rightarrow>
                  tasks_inner gtl gil bots k i (j + 1) (tasks @ [make_task c1 c2 i j k])))
      else Inr tasks)"
  by pat_completeness auto
termination
  by (relation "measure (\<lambda>(gtl, gil, bots, k, i, j, tasks). length bots - j)") auto

declare tasks_inner.simps [simp del]

text \<open>The outer loop \<^verbatim>\<open>for (let i = 0; i < this.bots.length; i++)\<close>.\<close>

function tasks_outer ::
  "rat \<Rightarrow> rat \<Rightarrow> bot list \<Rightarrow> nat \<Rightarrow> nat \<Rightarrow> task list \<Rightarrow> js_error + task list" where
  "tasks_outer gtl gil bots k i tasks =
     (if i < length bots then
        (case tasks_inner gtl gil bots k i (i + 1) tasks of
           Inl e \<Rightarrow> Inl e
         | Inr tasks' \<Rightarrow> tasks_outer gtl gil bots k (i + 1) tasks')
      else Inr tasks)"
  by pat_completeness auto
termination
  by (relation "measure (\<lambda>(gtl, gil, bots, k, i, tasks). length bots - i)") auto

declare tasks_outer.simps [simp del]

text \<open>
  The tasks a tournament submits: the guard of \<^verbatim>\<open>runTournament\<close> (at least two
  bots), then the two loops of \<^verbatim>\<open>runTournamentParallel\<close>.
\<close>

definition tournament_tasks :: "rat \<Rightarrow> rat \<Rightarrow> bot list \<Rightarrow> nat \<Rightarrow> js_error + task list" where
  "tournament_tasks gtl gil bots k =
     (if length bots < 2 then Inl (Error ''Need at least 2 bots to run tournament'')
      else tasks_outer gtl gil bots k 0 [])"

text \<open>The pair of competitors of a task, and the pairs of a round robin over \<open>c\<close> bots.\<close>

definition task_pair :: "task \<Rightarrow> nat \<times> nat" where
  "task_pair t = (task.bot1Index t, task.bot2Index t)"

definition round_robin_pairs :: "nat \<Rightarrow> (nat \<times> nat) list" where
  "round_robin_pairs c = concat (map (\<lambda>i. map (\<lambda>j. (i, j)) [i + 1..<c]) [0..<c])"

text \<open>A bot whose configuration can be built: a profile bot names a known profile.\<close>

definition known_profile :: "bot \<Rightarrow> bool" where
  "known_profile b = (if isProfile b then profile b \<in> set (map fst getProfiles) else True)"

text \<open>The configuration built for bot \<open>i\<close>, and the task of the pair \<open>(i, j)\<close>, when no error is thrown.\<close>

definition config_of :: "rat \<Rightarrow> rat \<Rightarrow> bot list \<Rightarrow> nat \<Rightarrow> bot_config" where
  "config_of gtl gil bots i = projr (getBotConfig gtl gil bots i)"

definition pair_task :: "rat \<Rightarrow> rat \<Rightarrow> bot list \<Rightarrow> nat \<Rightarrow> nat \<Rightarrow> nat \<Rightarrow> task" where
  "pair_task gtl gil bots k i j =
     make_task (config_of gtl gil bots i) (config_of gtl gil bots j) i j k"

section \<open>The worker pool (ArenaWorkerPool)\<close>

text \<open>
  The messages a pool receives from an arena worker after initialisation, by their
  \<^verbatim>\<open>type\<close>: \<^verbatim>\<open>GAME_COMPLETE\<close> with \<^verbatim>\<open>matchupId\<close> and \<^verbatim>\<open>gameResult\<close>,
  \<^verbatim>\<open>MATCHUP_COMPLETE\<close> with \<^verbatim>\<open>matchupId\<close> and \<^verbatim>\<open>results\<close>, \<^verbatim>\<open>MATCHUP_ERROR\<close> with
  \<^verbatim>\<open>matchupId\<close> and \<^verbatim>\<open>error\<close>, and any other type.
\<close>

datatype worker_message =
    GAME_COMPLETE string game
  | MATCHUP_COMPLETE string "game list"
  | MATCHUP_ERROR string string
  | OTHER_MESSAGE string

text \<open>
  The fields of the pool.  \<open>workers\<close> is the number of \<^verbatim>\<open>Worker\<close> objects in
  \<^verbatim>\<open>this.workers\<close>; \<open>progressCallback\<close>, \<open>resolveComplete\<close> and \<open>rejectComplete\<close> say
  whether the field holds a function.  The last three fields record effects:
  \<open>posted\<close> the \<^verbatim>\<open>RUN_MATCHUP\<close> messages posted (worker index and task, in order),
  \<open>resolved\<close> the values passed to \<^verbatim>\<open>resolve\<close> of the promise of the current
  \<^verbatim>\<open>runTasks\<close> call (the array \<^verbatim>\<open>this.results\<close>, by its contents at the call), and
  \<open>progress\<close> the calls of the progress callback.
\<close>

record pool =
  workerCount :: nat
  workers :: nat
  availableWorkers :: "nat list"
  busyWorkers :: "nat set"
  taskQueue :: "task list"
  results :: "matchup_result list"
  totalTasks :: nat
  completedTasks :: nat
  progressCallback :: bool
  resolveComplete :: bool
  rejectComplete :: bool
  totalGames :: nat
  completedGames :: nat
  posted :: "(nat \<times> task) list"
  resolved :: "matchup_result list list"
  progress :: "(nat \<times> nat \<times> game) list"

text \<open>\<^verbatim>\<open>constructor(workerCount = 8)\<close>\<close>

definition new_pool :: "nat \<Rightarrow> pool" where
  "new_pool n =
     \<lparr> workerCount = n, workers = 0, availableWorkers = [], busyWorkers = {},
       taskQueue = [], results = [], totalTasks = 0, completedTasks = 0,
       progressCallback = False, resolveComplete = False, rejectComplete = False,
       totalGames = 0, completedGames = 0, posted = [], resolved = [], progress = [] \<rparr>"

text \<open>
  \<^verbatim>\<open>initialize()\<close> creates the workers one after the other and waits for each.  What
  worker \<open>i\<close> answers is a parameter: \<^verbatim>\<open>INIT_COMPLETE\<close>, \<^verbatim>\<open>INIT_ERROR\<close> with a
  message, nothing within 30 seconds, or an \<^verbatim>\<open>error\<close> event.  Every outcome but the
  first rejects the promise of \<^verbatim>\<open>initialize\<close>.
\<close>

datatype init_outcome = INIT_COMPLETE | INIT_ERROR string | INIT_TIMEOUT | INIT_CRASH

function initialize_loop :: "(nat \<Rightarrow> init_outcome) \<Rightarrow> nat \<Rightarrow> pool \<Rightarrow> js_error + pool" where
  "initialize_loop outcome i s =
     (if i < workerCount s then
        (case outcome i of
           INIT_COMPLETE \<Rightarrow>
             initialize_loop outcome (i + 1)
               (s\<lparr>workers := workers s + 1, availableWorkers := availableWorkers s @ [i]\<rparr>)
         | INIT_ERROR e \<Rightarrow> Inl (Error e)
         | INIT_TIMEOUT \<Rightarrow>
             Inl (Error (''Worker '' @ string_of_nat i @ '' initialization timeout''))
         | INIT_CRASH \<Rightarrow> Inl ErrorEvent)
      else Inr s)"
  by pat_completeness auto
termination
  by (relation "measure (\<lambda>(outcome, i, s). workerCount s - i)") auto

declare initialize_loop.simps [simp del]

definition initialize :: "(nat \<Rightarrow> init_outcome) \<Rightarrow> pool \<Rightarrow> js_error + pool" where
  "initialize outcome s = initialize_loop outcome 0 s"

text \<open>
  \<^verbatim>\<open>processNextTask()\<close>.  The worker posted to exists: \<^verbatim>\<open>availableWorkers\<close> holds
  indices of \<^verbatim>\<open>this.workers\<close> only, since \<^verbatim>\<open>initialize\<close> fills both together and
  \<^verbatim>\<open>terminate\<close> empties both.
\<close>

definition processNextTask :: "pool \<Rightarrow> pool" where
  "processNextTask s =
     (if totalTasks s \<le> completedTasks s then
        (if resolveComplete s then
           s\<lparr>resolveComplete := False, rejectComplete := False,
             resolved := resolved s @ [results s]\<rparr>
         else s)
      else if taskQueue s \<noteq> [] \<and> availableWorkers s \<noteq> [] then
        (let task = hd (taskQueue s);
             workerIndex = hd (availableWorkers s)
         in s\<lparr>taskQueue := tl (taskQueue s),
              availableWorkers := tl (availableWorkers s),
              busyWorkers := insert workerIndex (busyWorkers s),
              posted := posted s @ [(workerIndex, task)]\<rparr>)
      else s)"

text \<open>\<^verbatim>\<open>handleWorkerMessage(workerIndex, e)\<close>\<close>

fun handleWorkerMessage :: "nat \<Rightarrow> worker_message \<Rightarrow> pool \<Rightarrow> pool" where
  "handleWorkerMessage workerIndex (GAME_COMPLETE mid gameResult) s =
     (let s = s\<lparr>completedGames := completedGames s + 1\<rparr>
      in if progressCallback s then
           s\<lparr>progress := progress s @ [(completedGames s, totalGames s, gameResult)]\<rparr>
         else s)"
| "handleWorkerMessage workerIndex (MATCHUP_COMPLETE mid rs) s =
     processNextTask
       (s\<lparr>results := results s @ [(mid, rs)],
          completedTasks := completedTasks s + 1,
          busyWorkers := busyWorkers s - {workerIndex},
          availableWorkers := availableWorkers s @ [workerIndex]\<rparr>)"
| "handleWorkerMessage workerIndex (MATCHUP_ERROR mid err) s =
     processNextTask
       (s\<lparr>completedTasks := completedTasks s + 1,
          busyWorkers := busyWorkers s - {workerIndex},
          availableWorkers := availableWorkers s @ [workerIndex]\<rparr>)"
| "handleWorkerMessage workerIndex (OTHER_MESSAGE ty) s = s"

text \<open>\<^verbatim>\<open>handleWorkerError(workerIndex, error)\<close>\<close>

definition handleWorkerError :: "nat \<Rightarrow> pool \<Rightarrow> pool" where
  "handleWorkerError workerIndex s =
     (if workerIndex \<in> busyWorkers s then
        processNextTask
          (s\<lparr>busyWorkers := busyWorkers s - {workerIndex},
             availableWorkers := availableWorkers s @ [workerIndex],
             completedTasks := completedTasks s + 1\<rparr>)
      else s)"

text \<open>The loop \<^verbatim>\<open>for (let i = 0; i < initialBatch; i++) this.processNextTask()\<close>.\<close>

function start_loop :: "nat \<Rightarrow> nat \<Rightarrow> pool \<Rightarrow> pool" where
  "start_loop i initialBatch s =
     (if i < initialBatch then start_loop (i + 1) initialBatch (processNextTask s) else s)"
  by pat_completeness auto
termination
  by (relation "measure (\<lambda>(i, initialBatch, s). initialBatch - i)") auto

declare start_loop.simps [simp del]

text \<open>
  \<^verbatim>\<open>runTasks(tasks, progressCallback)\<close>, up to the return of the promise.  The promise
  is new, so nothing has been passed to its \<^verbatim>\<open>resolve\<close> yet.
\<close>

definition runTasks :: "task list \<Rightarrow> bool \<Rightarrow> pool \<Rightarrow> pool" where
  "runTasks tasks callback s =
     (let s = s\<lparr>taskQueue := tasks,
                totalTasks := length tasks,
                completedTasks := 0,
                results := [],
                progressCallback := callback,
                totalGames := fold (\<lambda>task sum. sum + gamesPerMatchup task) tasks 0,
                completedGames := 0\<rparr>;
          s = s\<lparr>resolveComplete := True, rejectComplete := True, resolved := []\<rparr>;
          initialBatch = min (workerCount s) (length (taskQueue s))
      in if initialBatch = 0 \<and> totalTasks s = 0 then
           s\<lparr>resolved := resolved s @ [results s]\<rparr>
         else start_loop 0 initialBatch s)"

text \<open>\<^verbatim>\<open>terminate()\<close> of the pool.\<close>

definition terminate_pool :: "pool \<Rightarrow> pool" where
  "terminate_pool s = s\<lparr>workers := 0, availableWorkers := [], busyWorkers := {}\<rparr>"

subsection \<open>Events of a submission\<close>

text \<open>
  After \<^verbatim>\<open>initialize\<close> the pool reacts to two kinds of events of worker
  \<open>workerIndex\<close>: a message and an \<^verbatim>\<open>error\<close> event.
\<close>

datatype pool_event = WorkerMessage nat worker_message | WorkerError nat

fun pool_step :: "pool_event \<Rightarrow> pool \<Rightarrow> pool" where
  "pool_step (WorkerMessage workerIndex m) s = handleWorkerMessage workerIndex m s"
| "pool_step (WorkerError workerIndex) s = handleWorkerError workerIndex s"

definition run_pool :: "pool_event list \<Rightarrow> pool \<Rightarrow> pool" where
  "run_pool evs s = fold pool_step evs s"

text \<open>
  The side of the workers.  The task a worker is running is the last one posted to
  it; the arena worker answers a task with messages that carry the task's
  \<^verbatim>\<open>matchupId\<close>.  An event can come from the workers when its worker is busy and,
  for a message about a matchup, when the message names the task of that worker.
\<close>

definition current_task :: "pool \<Rightarrow> nat \<Rightarrow> task option" where
  "current_task s w =
     (let ps = filter (\<lambda>p. fst p = w) (posted s)
      in if ps = [] then None else Some (snd (last ps)))"

definition current_id :: "pool \<Rightarrow> nat \<Rightarrow> string" where
  "current_id s w = (case current_task s w of None \<Rightarrow> [] | Some t \<Rightarrow> matchupId t)"

fun from_worker :: "pool \<Rightarrow> pool_event \<Rightarrow> bool" where
  "from_worker s (WorkerMessage w (GAME_COMPLETE mid g)) =
     (w \<in> busyWorkers s \<and> map_option matchupId (current_task s w) = Some mid)"
| "from_worker s (WorkerMessage w (MATCHUP_COMPLETE mid rs)) =
     (w \<in> busyWorkers s \<and> map_option matchupId (current_task s w) = Some mid)"
| "from_worker s (WorkerMessage w (MATCHUP_ERROR mid err)) =
     (w \<in> busyWorkers s \<and> map_option matchupId (current_task s w) = Some mid)"
| "from_worker s (WorkerMessage w (OTHER_MESSAGE ty)) = True"
| "from_worker s (WorkerError w) = (w \<in> busyWorkers s)"

fun valid_trace :: "pool \<Rightarrow> pool_event list \<Rightarrow> bool" where
  "valid_trace s [] = True"
| "valid_trace s (e # es) = (from_worker s e \<and> valid_trace (pool_step e s) es)"

text \<open>
  The events that end a task: \<^verbatim>\<open>MATCHUP_COMPLETE\<close>, \<^verbatim>\<open>MATCHUP_ERROR\<close> and the
  \<^verbatim>\<open>error\<close> event of a worker; only the first is a success.
\<close>

fun terminal :: "pool_event \<Rightarrow> bool" where
  "terminal (WorkerMessage w (MATCHUP_COMPLETE mid rs)) = True"
| "terminal (WorkerMessage w (MATCHUP_ERROR mid err)) = True"
| "terminal (WorkerError w) = True"
| "terminal _ = False"

fun success :: "pool_event \<Rightarrow> bool" where
  "success (WorkerMessage w (MATCHUP_COMPLETE mid rs)) = True"
| "success _ = False"

fun event_worker :: "pool_event \<Rightarrow> nat" where
  "event_worker (WorkerMessage w m) = w"
| "event_worker (WorkerError w) = w"

text \<open>
  The tasks ended by a trace, in the order they end: the identity of the task the
  worker was running, and whether it completed.
\<close>

fun outcomes :: "pool \<Rightarrow> pool_event list \<Rightarrow> (string \<times> bool) list" where
  "outcomes s [] = []"
| "outcomes s (e # es) =
     (if terminal e then [(current_id s (event_worker e), success e)] else [])
       @ outcomes (pool_step e s) es"

text \<open>The entries the \<^verbatim>\<open>MATCHUP_COMPLETE\<close> messages of a trace carry, in order.\<close>

fun completed_of :: "pool_event list \<Rightarrow> matchup_result list" where
  "completed_of [] = []"
| "completed_of (WorkerMessage w (MATCHUP_COMPLETE mid rs) # es) = (mid, rs) # completed_of es"
| "completed_of (e # es) = completed_of es"

text \<open>The invariant of a submission of \<open>tasks\<close>, with \<open>out\<close> the tasks ended so far.\<close>

definition pool_inv :: "task list \<Rightarrow> pool \<Rightarrow> (string \<times> bool) list \<Rightarrow> bool" where
  "pool_inv tasks s out \<longleftrightarrow>
     finite (busyWorkers s) \<and>
     distinct (availableWorkers s) \<and>
     set (availableWorkers s) \<inter> busyWorkers s = {} \<and>
     totalTasks s = length tasks \<and>
     completedTasks s = length out \<and>
     length out + card (busyWorkers s) + length (taskQueue s) = length tasks \<and>
     (taskQueue s \<noteq> [] \<longrightarrow> busyWorkers s \<noteq> {}) \<and>
     resolveComplete s = (length out < length tasks) \<and>
     resolved s = (if length out < length tasks then [] else [results s]) \<and>
     mset (map fst out) + image_mset (current_id s) (mset_set (busyWorkers s))
       + mset (map matchupId (taskQueue s)) = mset (map matchupId tasks) \<and>
     map fst (results s) = map fst (filter snd out)"

text \<open>
  The pool after \<open>k\<close> rounds of the start loop of \<^verbatim>\<open>runTasks\<close>: the first \<open>k\<close> tasks
  are posted to the workers \<open>0\<close> to \<open>k - 1\<close>.
\<close>

definition started :: "task list \<Rightarrow> nat \<Rightarrow> pool \<Rightarrow> nat \<Rightarrow> pool" where
  "started tasks n b k =
     b\<lparr>taskQueue := drop k tasks,
       availableWorkers := [k..<n],
       busyWorkers := {0..<k},
       posted := map (\<lambda>i. (i, tasks ! i)) [0..<k]\<rparr>"

text \<open>Example data for the closed instances below.\<close>

definition example_config :: bot_config where
  "example_config =
     \<lparr> bot_config.name = ''p'', bot_config.explorationParam = 20, timeLimit = 2500,
       iterationsLimit = 100000, bot_config.weights = getDefaultWeights \<rparr>"

definition example_task :: "nat \<Rightarrow> nat \<Rightarrow> task" where
  "example_task i j = make_task example_config example_config i j 2"

definition example_game :: game where
  "example_game =
     \<lparr> game.bot1Index = 1, game.bot2Index = 2, winner = 0, turnCount = 30,
       bot1Points = 15, bot2Points = 9 \<rparr>"

definition all_complete :: "nat \<Rightarrow> init_outcome" where
  "all_complete i = INIT_COMPLETE"

definition ready_pool :: "nat \<Rightarrow> pool" where
  "ready_pool n = (new_pool n)\<lparr>workers := n, availableWorkers := [0..<n]\<rparr>"

section \<open>The arena worker (arena worker script, \<^verbatim>\<open>RUN_MATCHUP\<close>)\<close>

text \<open>
  The call \<^verbatim>\<open>arenaWrapper.runSingleMatchup(bot1, bot2, bot1Index, bot2Index, 1)\<close> by
  its arguments.  The engine behind it is not part of the repository's JavaScript:
  it is a parameter, a function from its own state and a call to the game it
  reports (\<^verbatim>\<open>result.results[0]\<close>) or the message of the error it throws, and its next
  state.
\<close>

type_synonym engine_call = "bot_config \<times> bot_config \<times> nat \<times> nat \<times> nat"

type_synonym 'e engine = "'e \<Rightarrow> engine_call \<Rightarrow> (string + game) \<times> 'e"

text \<open>
  The loop \<^verbatim>\<open>for (let gameNum = 0; gameNum < gamesPerMatchup; gameNum++)\<close>, with the
  engine state, \<^verbatim>\<open>allResults\<close>, the messages posted so far and the calls made so far.
  The constant \<^verbatim>\<open>startingPlayer\<close> is computed and not used, as in the source.
\<close>

function run_games ::
  "'e engine \<Rightarrow> task \<Rightarrow> nat \<Rightarrow> 'e \<Rightarrow> game list \<Rightarrow> worker_message list \<Rightarrow> engine_call list
     \<Rightarrow> (string + game list) \<times> 'e \<times> worker_message list \<times> engine_call list" where
  "run_games engine data gameNum w allResults out calls =
     (if gameNum < gamesPerMatchup data then
        (let startingPlayer = gameNum mod 2;
             call = (bot1 data, bot2 data, task.bot1Index data, task.bot2Index data, 1)
         in case engine w call of
              (Inl err, w') \<Rightarrow> (Inl err, w', out, calls @ [call])
            | (Inr gameResult, w') \<Rightarrow>
                run_games engine data (gameNum + 1) w' (allResults @ [gameResult])
                  (out @ [GAME_COMPLETE (matchupId data) gameResult]) (calls @ [call]))
      else (Inr allResults, w, out, calls))"
  by pat_completeness auto
termination
  by (relation "measure (\<lambda>(engine, data, gameNum, w, allResults, out, calls).
        gamesPerMatchup data - gameNum)") auto

declare run_games.simps [simp del]

text \<open>
  The handler of \<^verbatim>\<open>RUN_MATCHUP\<close>, with \<^verbatim>\<open>arenaWrapper\<close> (\<open>None\<close> before
  initialisation) as a parameter: the messages it posts, the wrapper afterwards and
  the calls it made to the engine.
\<close>

definition run_matchup ::
  "'e engine \<Rightarrow> task \<Rightarrow> 'e option \<Rightarrow> worker_message list \<times> 'e option \<times> engine_call list" where
  "run_matchup engine data arenaWrapper =
     (case arenaWrapper of
        None \<Rightarrow> ([MATCHUP_ERROR (matchupId data) ''Worker not initialized''], None, [])
      | Some w \<Rightarrow>
          (case run_games engine data 0 w [] [] [] of
             (Inl err, w', out, calls) \<Rightarrow>
               (out @ [MATCHUP_ERROR (matchupId data) err], Some w', calls)
           | (Inr allResults, w', out, calls) \<Rightarrow>
               (out @ [MATCHUP_COMPLETE (matchupId data) allResults], Some w', calls)))"

text \<open>An engine without state that reports the same game for every call.\<close>

definition constant_engine :: "game \<Rightarrow> unit engine" where
  "constant_engine g = (\<lambda>w call. (Inr g, w))"

section \<open>The AI worker proxy (AIWorkerProxy)\<close>

text \<open>The operations of a JavaScript \<^verbatim>\<open>Map\<close> kept as a list of entries in insertion order.\<close>

fun map_set :: "'k \<Rightarrow> 'v \<Rightarrow> ('k \<times> 'v) list \<Rightarrow> ('k \<times> 'v) list" where
  "map_set k v [] = [(k, v)]"
| "map_set k v (p # ps) = (if fst p = k then (k, v) # ps else p # map_set k v ps)"

definition map_get :: "('k \<times> 'v) list \<Rightarrow> 'k \<Rightarrow> 'v option" where
  "map_get m k = map_of m k"

definition map_delete :: "'k \<Rightarrow> ('k \<times> 'v) list \<Rightarrow> ('k \<times> 'v) list" where
  "map_delete k m = filter (\<lambda>p. fst p \<noteq> k) m"

text \<open>\<^verbatim>\<open>setTimeout(callback, delay)\<close> and \<^verbatim>\<open>clearTimeout(handle)\<close> on the armed timers.\<close>

definition setTimeout :: "string \<Rightarrow> nat \<Rightarrow> proxy \<Rightarrow> nat \<times> proxy" where
  "setTimeout requestId delay s =
     (nextTimer s,
      s\<lparr>timers := timers s @ [(nextTimer s, requestId, now s + delay)],
        nextTimer := nextTimer s + 1\<rparr>)"

definition clearTimeout :: "nat \<Rightarrow> proxy \<Rightarrow> proxy" where
  "clearTimeout handle s = s\<lparr>timers := filter (\<lambda>t. fst t \<noteq> handle) (timers s)\<rparr>"

text \<open>\<^verbatim>\<open>constructor(workerPath)\<close>; \<open>haveWorkers\<close> is \<^verbatim>\<open>typeof Worker !== 'undefined'\<close>.\<close>

definition new_proxy :: "bool \<Rightarrow> proxy" where
  "new_proxy haveWorkers =
     \<lparr> worker = False, isReady = False, pendingRequests = [], requestIdCounter = 0,
       proxy.progressCallback = False, useWorker = haveWorkers, difficulty = 5000000,
       proxy.timeLimit = 5 / 2, debugMode = False, fallbackWasm = False,
       now = 0, timers = [], nextTimer = 0, sent = [], settled = [] \<rparr>"

text \<open>
  \<^verbatim>\<open>initialize(wasmPath)\<close> taken as one step, with what happens as parameters: the
  answer of the new worker (\<^verbatim>\<open>READY\<close>, or else an \<^verbatim>\<open>ERROR\<close> message or no answer
  within ten seconds) and whether the engine module is available to the main thread
  for the fallback.
\<close>

definition initializeFallback :: "bool \<Rightarrow> proxy \<Rightarrow> js_error + proxy" where
  "initializeFallback moduleAvailable s =
     (if \<not> moduleAvailable then Inl (Error ''WASM Module not available'')
      else Inr (s\<lparr>fallbackWasm := True, isReady := True\<rparr>))"

definition initialize_proxy :: "string \<Rightarrow> bool \<Rightarrow> bool \<Rightarrow> proxy \<Rightarrow> js_error + proxy" where
  "initialize_proxy wasmPath workerReady moduleAvailable s =
     (if \<not> useWorker s then initializeFallback moduleAvailable s
      else
        (let s = s\<lparr>worker := True, sent := sent s @ [INIT wasmPath]\<rparr>
         in if workerReady then Inr (s\<lparr>isReady := True\<rparr>)
            else initializeFallback moduleAvailable (s\<lparr>useWorker := False\<rparr>)))"

text \<open>The request id \<^verbatim>\<open>`ai_request_${n}`\<close>.\<close>

definition request_id :: "nat \<Rightarrow> string" where
  "request_id n = ''ai_request_'' @ string_of_nat n"

text \<open>
  What a call of \<^verbatim>\<open>getAIAction\<close> gives back: an error thrown, the promise of the
  fallback computation on the main thread, or the promise of the request with the
  given id.
\<close>

datatype call_result = Thrown js_error | FallbackPromise | RequestPromise string

text \<open>
  \<^verbatim>\<open>getAIAction(gameState, playerId)\<close>.  The fallback branch computes with the engine
  on the main thread and touches no field of the proxy; the engine is not part of
  this model.  In the worker branch the timer is armed and the request stored
  before the message is posted, so a missing worker throws after both.
\<close>

definition getAIAction :: "string \<Rightarrow> nat \<Rightarrow> proxy \<Rightarrow> call_result \<times> proxy" where
  "getAIAction gameState playerId s =
     (if \<not> isReady s then (Thrown (Error ''AI Worker not initialized''), s)
      else if \<not> useWorker s then (FallbackPromise, s)
      else
        (let requestId = request_id (requestIdCounter s);
             s = s\<lparr>requestIdCounter := requestIdCounter s + 1\<rparr>;
             (timeout, s) = setTimeout requestId 30000 s;
             s = s\<lparr>pendingRequests := map_set requestId timeout (pendingRequests s)\<rparr>
         in if worker s then
              (RequestPromise requestId,
               s\<lparr>sent := sent s @ [COMPUTE_AI_ACTION requestId gameState playerId
                                      (difficulty s) (proxy.timeLimit s)]\<rparr>)
            else (Thrown TypeError, s)))"

text \<open>
  The callback of the timer of \<^verbatim>\<open>getAIAction\<close>.  The event loop runs it when the
  timer is armed and due; otherwise nothing happens.
\<close>

definition timer_fires :: "nat \<Rightarrow> proxy \<Rightarrow> proxy" where
  "timer_fires handle s =
     (case map_of (timers s) handle of
        None \<Rightarrow> s
      | Some (requestId, due) \<Rightarrow>
          if now s < due then s
          else
            (let s = s\<lparr>timers := filter (\<lambda>t. fst t \<noteq> handle) (timers s)\<rparr>;
                 s = s\<lparr>pendingRequests := map_delete requestId (pendingRequests s)\<rparr>
             in s\<lparr>settled := settled s @ [(requestId, Rejected (Error ''AI computation timeout''))]\<rparr>))"

text \<open>\<^verbatim>\<open>handleActionResult(message)\<close> and \<^verbatim>\<open>handleActionError(message)\<close>\<close>

definition handleActionResult :: "string \<Rightarrow> string \<Rightarrow> proxy \<Rightarrow> proxy" where
  "handleActionResult ident action s =
     (case map_get (pendingRequests s) ident of
        None \<Rightarrow> s
      | Some timeout \<Rightarrow>
          (let s = clearTimeout timeout s;
               s = s\<lparr>pendingRequests := map_delete ident (pendingRequests s)\<rparr>
           in s\<lparr>settled := settled s @ [(ident, Resolved action)]\<rparr>))"

definition handleActionError :: "string \<Rightarrow> string \<Rightarrow> proxy \<Rightarrow> proxy" where
  "handleActionError ident err s =
     (case map_get (pendingRequests s) ident of
        None \<Rightarrow> s
      | Some timeout \<Rightarrow>
          (let s = clearTimeout timeout s;
               s = s\<lparr>pendingRequests := map_delete ident (pendingRequests s)\<rparr>
           in s\<lparr>settled := settled s @ [(ident, Rejected (Error err))]\<rparr>))"

text \<open>
  \<^verbatim>\<open>handleMessage(event)\<close>.  \<^verbatim>\<open>handleProgress\<close> calls the progress callback when one is
  set and changes no field; \<^verbatim>\<open>READY\<close> and unknown types change nothing.
\<close>

fun handleMessage :: "proxy_message \<Rightarrow> proxy \<Rightarrow> proxy" where
  "handleMessage (AI_ACTION_RESULT ident action) s = handleActionResult ident action s"
| "handleMessage (AI_ERROR ident err) s = handleActionError ident err s"
| "handleMessage (PROGRESS p) s = s"
| "handleMessage READY s = s"
| "handleMessage (UNKNOWN ty) s = s"

text \<open>\<^verbatim>\<open>terminate()\<close>\<close>

definition terminate :: "proxy \<Rightarrow> proxy" where
  "terminate s =
     (let s = (if worker s then s\<lparr>worker := False\<rparr> else s);
          s = s\<lparr>isReady := False\<rparr>
      in s\<lparr>pendingRequests := []\<rparr>)"

text \<open>
  \<^verbatim>\<open>restart()\<close> as far as it runs before it waits: \<^verbatim>\<open>terminate()\<close>, the flag, and the
  part of \<^verbatim>\<open>initialize()\<close> before its \<^verbatim>\<open>await\<close>.  With \<^verbatim>\<open>useWorker\<close> that part creates a
  new worker and posts \<^verbatim>\<open>INIT\<close> with the default path; without it, the fallback
  waits for the engine module at once.  What follows the wait (\<^verbatim>\<open>READY\<close> sets
  \<^verbatim>\<open>isReady\<close>; an \<^verbatim>\<open>ERROR\<close> message or ten seconds without an answer make the proxy
  fall back to the main thread) belongs to a later message or timer of that
  initialisation, which is not among the events below; it reads and writes neither
  the pending requests nor their timers nor the settlements.
\<close>

definition restart :: "proxy \<Rightarrow> proxy" where
  "restart s =
     (let s = terminate s;
          s = s\<lparr>isReady := False\<rparr>
      in if useWorker s then s\<lparr>worker := True, sent := sent s @ [INIT ''wasm/splendor.js'']\<rparr>
         else s)"

text \<open>
  \<^verbatim>\<open>handleError(error)\<close>: the loop over the pending requests, then \<^verbatim>\<open>clear\<close>, then
  \<^verbatim>\<open>restart()\<close>.
\<close>

fun reject_all :: "(string \<times> nat) list \<Rightarrow> proxy \<Rightarrow> proxy" where
  "reject_all [] s = s"
| "reject_all ((ident, timeout) # rest) s =
     reject_all rest
       ((clearTimeout timeout s)\<lparr>settled := settled s @ [(ident, Rejected (Error ''Worker crashed''))]\<rparr>)"

definition handleError :: "proxy \<Rightarrow> proxy" where
  "handleError s =
     (let s = reject_all (pendingRequests s) s;
          s = s\<lparr>pendingRequests := []\<rparr>
      in restart s)"

text \<open>\<^verbatim>\<open>setDifficulty\<close>, \<^verbatim>\<open>setTimeLimit\<close>, \<^verbatim>\<open>setDebugMode\<close>\<close>

definition setDifficulty :: "nat \<Rightarrow> proxy \<Rightarrow> proxy" where
  "setDifficulty d s =
     (let s = s\<lparr>difficulty := d\<rparr>
      in if useWorker s \<and> worker s then s\<lparr>sent := sent s @ [SET_DIFFICULTY d]\<rparr> else s)"

definition setTimeLimit :: "rat \<Rightarrow> proxy \<Rightarrow> proxy" where
  "setTimeLimit t s =
     (let s = s\<lparr>proxy.timeLimit := t\<rparr>
      in if useWorker s \<and> worker s then s\<lparr>sent := sent s @ [SET_TIME_LIMIT t]\<rparr> else s)"

definition setDebugMode :: "bool \<Rightarrow> proxy \<Rightarrow> proxy" where
  "setDebugMode enabled s =
     (let s = s\<lparr>debugMode := enabled\<rparr>
      in if useWorker s \<and> worker s then s\<lparr>sent := sent s @ [SET_DEBUG_MODE enabled]\<rparr> else s)"

subsection \<open>Events of the proxy\<close>

text \<open>
  What can happen to a proxy: a call of one of its methods, a message or an
  \<^verbatim>\<open>error\<close> event of its worker, a timer callback, and the passing of time.
\<close>

datatype proxy_event =
    GetAIAction string nat
  | Message proxy_message
  | WorkerCrash
  | TimerFires nat
  | Terminate
  | SetDifficulty nat
  | SetTimeLimit rat
  | SetDebugMode bool
  | Advance nat

fun proxy_step :: "proxy_event \<Rightarrow> proxy \<Rightarrow> proxy" where
  "proxy_step (GetAIAction gameState playerId) s = snd (getAIAction gameState playerId s)"
| "proxy_step (Message m) s = handleMessage m s"
| "proxy_step WorkerCrash s = handleError s"
| "proxy_step (TimerFires handle) s = timer_fires handle s"
| "proxy_step Terminate s = terminate s"
| "proxy_step (SetDifficulty d) s = setDifficulty d s"
| "proxy_step (SetTimeLimit t) s = setTimeLimit t s"
| "proxy_step (SetDebugMode enabled) s = setDebugMode enabled s"
| "proxy_step (Advance d) s = s\<lparr>now := now s + d\<rparr>"

definition run_proxy :: "proxy_event list \<Rightarrow> proxy \<Rightarrow> proxy" where
  "run_proxy evs s = fold proxy_step evs s"

text \<open>A message of the worker that replies to request \<open>rid\<close>.\<close>

fun replies_to :: "string \<Rightarrow> proxy_event \<Rightarrow> bool" where
  "replies_to rid (Message (AI_ACTION_RESULT ident action)) = (ident = rid)"
| "replies_to rid (Message (AI_ERROR ident err)) = (ident = rid)"
| "replies_to rid _ = False"

text \<open>An event that settles request \<open>rid\<close> before its timer: a reply, or the crash of the worker.\<close>

fun answers :: "string \<Rightarrow> proxy_event \<Rightarrow> bool" where
  "answers rid (Message (AI_ACTION_RESULT ident action)) = (ident = rid)"
| "answers rid (Message (AI_ERROR ident err)) = (ident = rid)"
| "answers rid WorkerCrash = True"
| "answers rid _ = False"

text \<open>The settlements of request \<open>rid\<close> among those made after the first \<open>k\<close>.\<close>

definition settlements_since :: "nat \<Rightarrow> string \<Rightarrow> proxy \<Rightarrow> (string \<times> settlement) list" where
  "settlements_since k rid s = filter (\<lambda>p. fst p = rid) (drop k (settled s))"

text \<open>
  A proxy is well formed when the handles of its armed timers and of its pending
  requests are below the next handle and the ids of its timers and pending requests
  are ids of requests already issued.  The constructor gives such a proxy.
\<close>

definition issued :: "proxy \<Rightarrow> string \<Rightarrow> bool" where
  "issued s rid = (rid \<in> set (map request_id [0..<requestIdCounter s]))"

definition proxy_wf :: "proxy \<Rightarrow> bool" where
  "proxy_wf s =
     (list_all (\<lambda>t. fst t < nextTimer s \<and> issued s (fst (snd t))) (timers s) \<and>
      list_all (\<lambda>p. snd p < nextTimer s \<and> issued s (fst p)) (pendingRequests s))"

text \<open>
  The two phases of a request \<open>rid\<close> that was issued when the counter was \<open>c0\<close> and
  \<open>k\<close> settlements had been made, with timer \<open>h\<close> due at \<open>due\<close>: while it waits, its
  timer is armed, is its only timer and belongs to no other pending request, and it
  has not been settled; once expired, no timer and no pending request names it.
\<close>

definition waiting :: "nat \<Rightarrow> nat \<Rightarrow> nat \<Rightarrow> string \<Rightarrow> nat \<Rightarrow> proxy \<Rightarrow> bool" where
  "waiting c0 k h rid due s \<longleftrightarrow>
     c0 < requestIdCounter s \<and> h < nextTimer s \<and> k \<le> length (settled s) \<and>
     map_of (timers s) h = Some (rid, due) \<and>
     list_all (\<lambda>t. fst (snd t) = rid \<longrightarrow> fst t = h) (timers s) \<and>
     list_all (\<lambda>p. snd p = h \<longrightarrow> fst p = rid) (pendingRequests s) \<and>
     settlements_since k rid s = []"

definition expired :: "nat \<Rightarrow> nat \<Rightarrow> string \<Rightarrow> proxy \<Rightarrow> bool" where
  "expired c0 k rid s \<longleftrightarrow>
     c0 < requestIdCounter s \<and> k \<le> length (settled s) \<and>
     list_all (\<lambda>t. fst (snd t) \<noteq> rid) (timers s) \<and>
     list_all (\<lambda>p. fst p \<noteq> rid) (pendingRequests s)"

text \<open>A proxy whose worker has answered \<^verbatim>\<open>READY\<close>.\<close>

definition ready_proxy :: proxy where
  "ready_proxy =
     (new_proxy True)\<lparr>worker := True, sent := [INIT ''wasm/splendor.js''], isReady := True\<rparr>"

section \<open>Proofs: rounding to doubles\<close>

text \<open>
  \<open>binary64 q\<close> is an integer of at most \<open>53\<close> bits times the unit \<open>2^u\<close> of the binade
  of \<open>q\<close>, and differs from \<open>q\<close> by at most half that unit.
\<close>

lemma round_half_even_near: "\<bar>of_int (round_half_even x) - x\<bar> \<le> 1 / 2"
proof -
  define f where "f = \<lfloor>x\<rfloor>"
  have "of_int f \<le> x" "x < of_int f + 1" unfolding f_def by linarith+
  then show ?thesis
    unfolding round_half_even_def Let_def f_def [symmetric]
    by (auto simp: abs_if)
qed

lemma floor_log2_bounds:
  assumes "0 < a"
  shows "2 powi floor_log2 a \<le> a \<and> a < 2 powi (floor_log2 a + 1)"
proof -
  obtain p d where pd: "quotient_of a = (p, d)" by (cases "quotient_of a")
  then have d: "0 < d" and a: "a = of_int p / of_int d"
    using quotient_of_denom_pos quotient_of_div by blast+
  with assms have p: "0 < p" by (simp add: zero_less_divide_iff)
  define k where "k = bitlen p - bitlen d"
  from bitlen_bounds [OF p] have p1: "2 ^ nat (bitlen p - 1) \<le> p" and p2: "p < 2 ^ nat (bitlen p)"
    by simp_all
  from bitlen_bounds [OF d] have d1: "2 ^ nat (bitlen d - 1) \<le> d" and d2: "d < 2 ^ nat (bitlen d)"
    by simp_all
  have bp: "1 \<le> bitlen p" and bd: "1 \<le> bitlen d" using p d by (simp_all add: bitlen_alt_def)
  have P1: "(2::rat) powi (bitlen p - 1) \<le> of_int p"
  proof -
    have "(2::rat) powi (bitlen p - 1) = of_int (2 ^ nat (bitlen p - 1))"
      using bp by (simp add: power_int_def)
    also have "\<dots> \<le> of_int p" using p1 by (simp only: of_int_le_iff)
    finally show ?thesis .
  qed
  have P2: "of_int p < (2::rat) powi bitlen p"
  proof -
    have "(of_int p :: rat) < of_int (2 ^ nat (bitlen p))" using p2 by (simp only: of_int_less_iff)
    also have "\<dots> = 2 powi bitlen p" using bp by (simp add: power_int_def)
    finally show ?thesis .
  qed
  have D1: "(2::rat) powi (bitlen d - 1) \<le> of_int d"
  proof -
    have "(2::rat) powi (bitlen d - 1) = of_int (2 ^ nat (bitlen d - 1))"
      using bd by (simp add: power_int_def)
    also have "\<dots> \<le> of_int d" using d1 by (simp only: of_int_le_iff)
    finally show ?thesis .
  qed
  have D2: "of_int d < (2::rat) powi bitlen d"
  proof -
    have "(of_int d :: rat) < of_int (2 ^ nat (bitlen d))" using d2 by (simp only: of_int_less_iff)
    also have "\<dots> = 2 powi bitlen d" using bd by (simp add: power_int_def)
    finally show ?thesis .
  qed
  have pos: "\<And>n. 0 < (2::rat) powi n" by simp
  have up: "a < 2 powi (k + 1)"
  proof -
    have "a < 2 powi bitlen p / 2 powi (bitlen d - 1)"
      unfolding a using p P2 D1 pos [of "bitlen d - 1"] by (intro frac_less) simp_all
    also have "\<dots> = 2 powi (bitlen p - (bitlen d - 1))"
      by (simp add: power_int_diff)
    also have "bitlen p - (bitlen d - 1) = k + 1" by (simp add: k_def)
    finally show ?thesis .
  qed
  have low: "2 powi (k - 1) \<le> a"
  proof -
    have "k - 1 = (bitlen p - 1) - bitlen d" by (simp add: k_def)
    then have "(2::rat) powi (k - 1) = 2 powi (bitlen p - 1) / 2 powi bitlen d"
      by (simp add: power_int_diff)
    also have "\<dots> \<le> a"
      unfolding a using p d P1 D2 by (intro frac_le) simp_all
    finally show ?thesis .
  qed
  show ?thesis
    using up low by (simp add: floor_log2_def pd k_def [symmetric] Let_def)
qed

lemma binary64_near:
  assumes "q \<noteq> 0"
  shows "\<bar>binary64 q - q\<bar> \<le> 2 powi (max (floor_log2 \<bar>q\<bar> - 52) (- 1074)) / 2"
proof -
  define u where "u = max (floor_log2 \<bar>q\<bar> - 52) (- 1074)"
  define m where "m = round_half_even (\<bar>q\<bar> / 2 powi u)"
  have pos: "0 < (2::rat) powi u" by simp
  have b: "binary64 q = sgn q * of_int m * 2 powi u"
    using assms by (simp add: binary64_def Let_def u_def m_def)
  have "q = sgn q * (\<bar>q\<bar> / 2 powi u) * 2 powi u"
    using pos by (simp add: sgn_mult_abs)
  then have "binary64 q - q = sgn q * (of_int m - \<bar>q\<bar> / 2 powi u) * 2 powi u"
    unfolding b by (simp add: algebra_simps)
  then have "\<bar>binary64 q - q\<bar> = \<bar>of_int m - \<bar>q\<bar> / 2 powi u\<bar> * 2 powi u"
    using assms pos by (simp add: abs_mult abs_sgn_eq)
  also have "\<dots> \<le> 1 / 2 * 2 powi u"
    using round_half_even_near [of "\<bar>q\<bar> / 2 powi u"] pos
    unfolding m_def by (intro mult_right_mono) simp_all
  finally show ?thesis unfolding u_def by simp
qed

lemma binary64_significand:
  assumes "q \<noteq> 0"
  shows "\<exists>m. binary64 q = of_int m * 2 powi (max (floor_log2 \<bar>q\<bar> - 52) (- 1074)) \<and>
             \<bar>m\<bar> \<le> 2 ^ 53"
proof -
  define e where "e = floor_log2 \<bar>q\<bar>"
  define u where "u = max (e - 52) (- 1074)"
  define x where "x = \<bar>q\<bar> / 2 powi u"
  define m where "m = round_half_even x"
  have pos: "0 < (2::rat) powi u" by simp
  have b: "binary64 q = sgn q * of_int m * 2 powi u"
    using assms by (simp add: binary64_def Let_def u_def m_def x_def e_def)
  from floor_log2_bounds [of "\<bar>q\<bar>"] assms have "\<bar>q\<bar> < 2 powi (e + 1)"
    by (simp add: e_def)
  also have "(2::rat) powi (e + 1) \<le> 2 powi (u + 53)"
    by (intro power_int_increasing) (simp_all add: u_def)
  also have "\<dots> = 2 ^ 53 * 2 powi u" by (simp add: power_int_add)
  finally have "x < 2 ^ 53" using pos by (simp add: x_def pos_divide_less_eq)
  moreover have "0 \<le> x" by (simp add: x_def)
  ultimately have "0 \<le> \<lfloor>x\<rfloor> \<and> \<lfloor>x\<rfloor> < 2 ^ 53"
    by (simp add: floor_less_iff)
  then have m: "0 \<le> m \<and> m \<le> 2 ^ 53"
    unfolding m_def round_half_even_def Let_def by auto
  have "binary64 q = of_int (if 0 < q then m else - m) * 2 powi u"
    using assms unfolding b by (simp add: sgn_if)
  moreover have "\<bar>if 0 < q then m else - m\<bar> \<le> 2 ^ 53" using m by simp
  ultimately show ?thesis unfolding u_def e_def by blast
qed

text \<open>Some doubles: a tenth, a third, and the two ties beyond \<open>2^53\<close>.\<close>

lemma binary64_examples:
  "binary64 (1 / 10) = 3602879701896397 / 2 ^ 55"
  "binary64 (- (1 / 3)) = - (6004799503160661 / 2 ^ 54)"
  "binary64 (2 ^ 53 + 1) = 2 ^ 53"
  "binary64 (2 ^ 53 + 3) = 2 ^ 53 + 4"
  "binary64 100 = 100"
  by code_simp+

section \<open>Proofs: aggregation\<close>

lemma gamesPlayed_aggregate_game:
  "gamesPlayed (aggregate_game g r) = arr_inc (arr_inc (gamesPlayed r) (bot1Index g)) (bot2Index g)"
  by (simp add: aggregate_game_def Let_def)

lemma wins_aggregate_game:
  "wins (aggregate_game g r) =
     (if winner g = 0 then arr_inc (wins r) (bot1Index g) else arr_inc (wins r) (bot2Index g))"
  by (simp add: aggregate_game_def Let_def)

lemma losses_aggregate_game:
  "losses (aggregate_game g r) =
     (if winner g = 0 then arr_inc (losses r) (bot2Index g) else arr_inc (losses r) (bot1Index g))"
  by (simp add: aggregate_game_def Let_def)

lemma totalWinTurns_aggregate_game:
  "totalWinTurns (aggregate_game g r) =
     (if winner g = 0 then arr_add (totalWinTurns r) (bot1Index g) (Num (of_int (turnCount g)))
      else arr_add (totalWinTurns r) (bot2Index g) (Num (of_int (turnCount g))))"
  by (simp add: aggregate_game_def Let_def)

lemma totalPoints_aggregate_game:
  "totalPoints (aggregate_game g r) =
     arr_add (arr_add (totalPoints r) (bot1Index g) (Num (of_int (bot1Points g))))
       (bot2Index g) (Num (of_int (bot2Points g)))"
  by (simp add: aggregate_game_def Let_def)

lemma matches_aggregate_game: "matches (aggregate_game g r) = matches r @ [g]"
  by (simp add: aggregate_game_def Let_def)

lemma js_eq_add_iff:
  "js_eq (js_add w l) p \<longleftrightarrow> (\<exists>a b. w = Num a \<and> l = Num b \<and> p = Num (a + b))"
  by (cases w; cases l; cases p) auto

lemma win_loss_invariant_step:
  assumes "win_loss_invariant r i"
  shows "win_loss_invariant (aggregate_game g r) i"
  using assms
  unfolding win_loss_invariant_def js_eq_add_iff
  by (auto simp: gamesPlayed_aggregate_game wins_aggregate_game losses_aggregate_game arr_inc_def)

lemma win_loss_invariant_fold:
  "win_loss_invariant r i \<Longrightarrow> win_loss_invariant (fold aggregate_game gs r) i"
  by (induction gs arbitrary: r) (simp_all add: win_loss_invariant_step)

lemma win_loss_invariant_collect:
  "win_loss_invariant r i \<Longrightarrow> win_loss_invariant (collect_matches ms r) i"
  unfolding collect_matches_def
  by (induction ms arbitrary: r) (simp_all add: win_loss_invariant_fold)

lemma win_loss_invariant_empty:
  "i < length names \<Longrightarrow> win_loss_invariant (empty_results names) i"
  by (simp add: win_loss_invariant_def empty_results_def array_fill_def)

lemma average_bot_accumulators:
  "wins (average_bot tt i r) = wins r"
  "losses (average_bot tt i r) = losses r"
  "gamesPlayed (average_bot tt i r) = gamesPlayed r"
  "totalPoints (average_bot tt i r) = totalPoints r"
  "totalWinTurns (average_bot tt i r) = totalWinTurns r"
  "matches (average_bot tt i r) = matches r"
  "bot_names (average_bot tt i r) = bot_names r"
  by (simp_all add: average_bot_def Let_def)

lemma average_loop_accumulators:
  "wins (average_loop tt i n r) = wins r \<and>
   losses (average_loop tt i n r) = losses r \<and>
   gamesPlayed (average_loop tt i n r) = gamesPlayed r \<and>
   totalPoints (average_loop tt i n r) = totalPoints r \<and>
   totalWinTurns (average_loop tt i n r) = totalWinTurns r \<and>
   matches (average_loop tt i n r) = matches r \<and>
   bot_names (average_loop tt i n r) = bot_names r"
proof (induction tt i n r rule: average_loop.induct)
  case (1 tt i n r)
  show ?case
  proof (cases "i < n")
    case True
    with 1 show ?thesis
      by (subst (1 2 3 4 5 6 7) average_loop.simps) (simp add: average_bot_accumulators)
  next
    case False
    then show ?thesis by (simp add: average_loop.simps)
  qed
qed

text \<open>
  Claim C7.  For every competitor \<open>i\<close> (an index below the number of bots) and every
  list of matchup results, the accumulators of \<^verbatim>\<open>aggregateResults\<close> satisfy
  \<^verbatim>\<open>wins[i] + losses[i] == gamesPlayed[i]\<close>, and the same holds after every single
  game has been folded in, that is, for every prefix of the games in the order the
  code visits them.
\<close>

theorem wins_plus_losses_is_gamesPlayed:
  assumes "i < length names"
  shows "win_loss_invariant (aggregateResults names matchupResults k) i \<and>
         (\<forall>m \<le> length (concat (map snd matchupResults)).
            win_loss_invariant
              (fold aggregate_game (take m (concat (map snd matchupResults)))
                 (empty_results names)) i)"
proof -
  have "win_loss_invariant (collect_matches matchupResults (empty_results names)) i"
    using assms by (simp add: win_loss_invariant_collect win_loss_invariant_empty)
  then have "win_loss_invariant (aggregateResults names matchupResults k) i"
    by (simp add: aggregateResults_def Let_def win_loss_invariant_def average_loop_accumulators)
  moreover have "win_loss_invariant (fold aggregate_game gs (empty_results names)) i" for gs
    using assms by (simp add: win_loss_invariant_fold win_loss_invariant_empty)
  ultimately show ?thesis by simp
qed

theorem wins_plus_losses_is_gamesPlayed_witness:
  "(0::nat) < length [''a'', ''b''] \<and>
   win_loss_invariant
     (aggregateResults [''a'', ''b'']
        [(''bot0_vs_bot1'',
          [\<lparr>game.bot1Index = 0, game.bot2Index = 1, winner = 0, turnCount = 30,
             bot1Points = 15, bot2Points = 9\<rparr>,
           \<lparr>game.bot1Index = 0, game.bot2Index = 1, winner = 1, turnCount = 28,
             bot1Points = 11, bot2Points = 16\<rparr>])] 2) 0"
  using wins_plus_losses_is_gamesPlayed [of 0 "[''a'', ''b'']" _ 2]
  by simp

lemma js_inc_add: "js_inc x = js_add x (Num 1)"
  by (cases x) simp_all

lemma js_add_right_commute: "js_add (js_add x u) v = js_add (js_add x v) u"
  by (cases x; cases u; cases v) simp_all

lemma arr_inc_add: "arr_inc a i = arr_add a i (Num 1)"
  by (simp add: arr_inc_def arr_add_def js_inc_add)

lemma arr_add_commute: "arr_add (arr_add a i u) j v = arr_add (arr_add a j v) i u"
  by (auto simp: arr_add_def fun_eq_iff js_add_right_commute)

lemma fold_aggregate_game_fields:
  "gamesPlayed (fold aggregate_game gs r) = fold gamesPlayed_step gs (gamesPlayed r)"
  "wins (fold aggregate_game gs r) = fold wins_step gs (wins r)"
  "losses (fold aggregate_game gs r) = fold losses_step gs (losses r)"
  "totalWinTurns (fold aggregate_game gs r) = fold totalWinTurns_step gs (totalWinTurns r)"
  "totalPoints (fold aggregate_game gs r) = fold totalPoints_step gs (totalPoints r)"
  "matches (fold aggregate_game gs r) = matches r @ gs"
  "avgGameLength (fold aggregate_game gs r) = avgGameLength r"
  "avgPointsScored (fold aggregate_game gs r) = avgPointsScored r"
  "avgWinTurns (fold aggregate_game gs r) = avgWinTurns r"
  "bot_names (fold aggregate_game gs r) = bot_names r"
  by (induction gs arbitrary: r;
      simp add: gamesPlayed_aggregate_game wins_aggregate_game losses_aggregate_game
        totalWinTurns_aggregate_game totalPoints_aggregate_game matches_aggregate_game
        gamesPlayed_step_def wins_step_def losses_step_def totalWinTurns_step_def
        totalPoints_step_def arr_inc_add;
      simp add: aggregate_game_def Let_def)+

lemma steps_commute:
  "gamesPlayed_step g \<circ> gamesPlayed_step h = gamesPlayed_step h \<circ> gamesPlayed_step g"
  "wins_step g \<circ> wins_step h = wins_step h \<circ> wins_step g"
  "losses_step g \<circ> losses_step h = losses_step h \<circ> losses_step g"
  "totalWinTurns_step g \<circ> totalWinTurns_step h = totalWinTurns_step h \<circ> totalWinTurns_step g"
  "totalPoints_step g \<circ> totalPoints_step h = totalPoints_step h \<circ> totalPoints_step g"
  "add_turns g \<circ> add_turns h = add_turns h \<circ> add_turns g"
  unfolding gamesPlayed_step_def wins_step_def losses_step_def totalWinTurns_step_def
    totalPoints_step_def add_turns_def comp_def
  by (rule ext, metis arr_add_commute)+

lemma collect_matches_concat:
  "collect_matches ms r = fold aggregate_game (concat (map snd ms)) r"
  unfolding collect_matches_def
  by (induction ms arbitrary: r) simp_all

lemma average_bot_averages:
  "avgPointsScored (average_bot tt i r) =
     (if js_gt0 (gamesPlayed r i)
      then (avgPointsScored r)(i := js_div (totalPoints r i) (gamesPlayed r i))
      else avgPointsScored r)"
  "avgGameLength (average_bot tt i r) =
     (if js_gt0 (gamesPlayed r i)
      then (avgGameLength r)(i := js_div (tt i) (gamesPlayed r i))
      else avgGameLength r)"
  "avgWinTurns (average_bot tt i r) =
     (if js_gt0 (wins r i)
      then (avgWinTurns r)(i := js_div (totalWinTurns r i) (wins r i))
      else avgWinTurns r)"
  by (simp_all add: average_bot_def Let_def)

lemma average_loop_averages:
  "avgPointsScored (average_loop tt i n r) j =
     (if i \<le> j \<and> j < n \<and> js_gt0 (gamesPlayed r j)
      then js_div (totalPoints r j) (gamesPlayed r j) else avgPointsScored r j) \<and>
   avgGameLength (average_loop tt i n r) j =
     (if i \<le> j \<and> j < n \<and> js_gt0 (gamesPlayed r j)
      then js_div (tt j) (gamesPlayed r j) else avgGameLength r j) \<and>
   avgWinTurns (average_loop tt i n r) j =
     (if i \<le> j \<and> j < n \<and> js_gt0 (wins r j)
      then js_div (totalWinTurns r j) (wins r j) else avgWinTurns r j)"
proof (induction tt i n r rule: average_loop.induct)
  case (1 tt i n r)
  show ?case
  proof (cases "i < n")
    case True
    have unfold: "average_loop tt i n r = average_loop tt (i + 1) n (average_bot tt i r)"
      using True by (subst average_loop.simps) simp
    have le: "i + 1 \<le> j \<longleftrightarrow> i \<le> j \<and> j \<noteq> i"
      by arith
    show ?thesis
      unfolding unfold using 1 [OF True] True
      by (cases "j = i") (simp_all add: le average_bot_accumulators average_bot_averages)
  next
    case False
    then have stop: "average_loop tt i n r = r"
      by (subst average_loop.simps) simp
    from False have "\<not> (i \<le> j \<and> j < n)" by arith
    then show ?thesis unfolding stop by auto
  qed
qed

text \<open>
  Claim C6.  Aggregation does not depend on the order of the match results: two
  lists of matchup results that hold the same games (as a multiset, so any
  permutation, also across matchups) give the same accumulators \<^verbatim>\<open>gamesPlayed\<close>,
  \<^verbatim>\<open>wins\<close>, \<^verbatim>\<open>losses\<close>, \<^verbatim>\<open>totalPoints\<close>, \<^verbatim>\<open>totalWinTurns\<close> and the same derived
  averages.  Numbers are exact here; the games carry integer turn counts and points.
\<close>

theorem aggregation_order_independent:
  assumes "mset (concat (map snd ms)) = mset (concat (map snd ms'))"
  shows "gamesPlayed (aggregateResults names ms k) = gamesPlayed (aggregateResults names ms' k) \<and>
         wins (aggregateResults names ms k) = wins (aggregateResults names ms' k) \<and>
         losses (aggregateResults names ms k) = losses (aggregateResults names ms' k) \<and>
         totalPoints (aggregateResults names ms k) = totalPoints (aggregateResults names ms' k) \<and>
         totalWinTurns (aggregateResults names ms k) = totalWinTurns (aggregateResults names ms' k) \<and>
         avgPointsScored (aggregateResults names ms k) = avgPointsScored (aggregateResults names ms' k) \<and>
         avgGameLength (aggregateResults names ms k) = avgGameLength (aggregateResults names ms' k) \<and>
         avgWinTurns (aggregateResults names ms k) = avgWinTurns (aggregateResults names ms' k)"
proof -
  define gs where "gs = concat (map snd ms)"
  define gs' where "gs' = concat (map snd ms')"
  define r0 where "r0 = empty_results names"
  define r where "r = collect_matches ms r0"
  define r' where "r' = collect_matches ms' r0"
  have perm: "mset gs = mset gs'" using assms by (simp add: gs_def gs'_def)
  have r: "r = fold aggregate_game gs r0" and r': "r' = fold aggregate_game gs' r0"
    by (simp_all add: r_def r'_def gs_def gs'_def collect_matches_concat)
  have gp: "gamesPlayed r = gamesPlayed r'"
    unfolding r r' fold_aggregate_game_fields
    by (simp add: fold_multiset_equiv [OF steps_commute(1) perm])
  have w: "wins r = wins r'"
    unfolding r r' fold_aggregate_game_fields
    by (simp add: fold_multiset_equiv [OF steps_commute(2) perm])
  have l: "losses r = losses r'"
    unfolding r r' fold_aggregate_game_fields
    by (simp add: fold_multiset_equiv [OF steps_commute(3) perm])
  have twt: "totalWinTurns r = totalWinTurns r'"
    unfolding r r' fold_aggregate_game_fields
    by (simp add: fold_multiset_equiv [OF steps_commute(4) perm])
  have tp: "totalPoints r = totalPoints r'"
    unfolding r r' fold_aggregate_game_fields
    by (simp add: fold_multiset_equiv [OF steps_commute(5) perm])
  have m: "matches r = gs" "matches r' = gs'"
    by (simp_all add: r r' fold_aggregate_game_fields r0_def empty_results_def)
  have tt: "total_turns (length names) (matches r) = total_turns (length names) (matches r')"
    unfolding m total_turns_def
    by (simp add: fold_multiset_equiv [OF steps_commute(6) perm])
  have avg0: "avgPointsScored r = avgPointsScored r'" "avgGameLength r = avgGameLength r'"
    "avgWinTurns r = avgWinTurns r'"
    by (simp_all add: r r' fold_aggregate_game_fields)
  have agg: "aggregateResults names ms k = average_loop (total_turns (length names) (matches r)) 0 (length names) r"
    "aggregateResults names ms' k = average_loop (total_turns (length names) (matches r')) 0 (length names) r'"
    by (simp_all add: aggregateResults_def Let_def r_def r'_def r0_def)
  show ?thesis
    unfolding agg
    by (intro conjI ext) (simp_all add: average_loop_accumulators average_loop_averages gp w l twt tp tt avg0)
qed

theorem aggregation_order_independent_witness:
  "wins (aggregateResults [''a'', ''b'', ''c'']
        [(''bot0_vs_bot1'',
          [\<lparr>game.bot1Index = 0, game.bot2Index = 1, winner = 0, turnCount = 30,
             bot1Points = 15, bot2Points = 9\<rparr>,
           \<lparr>game.bot1Index = 0, game.bot2Index = 1, winner = 1, turnCount = 28,
             bot1Points = 11, bot2Points = 16\<rparr>]),
         (''bot0_vs_bot2'',
          [\<lparr>game.bot1Index = 0, game.bot2Index = 2, winner = 1, turnCount = 25,
             bot1Points = 7, bot2Points = 15\<rparr>])] 2)
   = wins (aggregateResults [''a'', ''b'', ''c'']
        [(''bot0_vs_bot2'',
          [\<lparr>game.bot1Index = 0, game.bot2Index = 2, winner = 1, turnCount = 25,
             bot1Points = 7, bot2Points = 15\<rparr>]),
         (''bot0_vs_bot1'',
          [\<lparr>game.bot1Index = 0, game.bot2Index = 1, winner = 0, turnCount = 30,
             bot1Points = 15, bot2Points = 9\<rparr>,
           \<lparr>game.bot1Index = 0, game.bot2Index = 1, winner = 1, turnCount = 28,
             bot1Points = 11, bot2Points = 16\<rparr>])] 2)"
  by (rule aggregation_order_independent [THEN conjunct2, THEN conjunct1]) simp

section \<open>Proofs: win rates\<close>

lemma win_rate_Num:
  "win_rate (Num w) (Num l) =
     Inr (if 0 < w + l
          then Num (binary64 (round1 (binary64 (binary64 (w / (w + l)) * 100))))
          else Num 0)"
  by (simp add: win_rate_def Let_def)

lemma map_rows_nth:
  "map_rows r bs idx = Inr rows \<Longrightarrow> length rows = length bs \<and> (\<forall>i < length bs. stats_row_of r (bs ! i) (idx + i) = Inr (rows ! i))"
proof (induction bs arbitrary: idx rows)
  case Nil
  then show ?case by simp
next
  case (Cons b bs)
  from Cons.prems obtain row rows' where
    row: "stats_row_of r b idx = Inr row" and rows': "map_rows r bs (idx + 1) = Inr rows'"
    and rows: "rows = row # rows'"
    by (auto split: sum.splits)
  from Cons.IH [OF rows'] have len: "length rows' = length bs"
    and nth: "\<And>i. i < length bs \<Longrightarrow> stats_row_of r (bs ! i) (idx + 1 + i) = Inr (rows' ! i)"
    by simp_all
  show ?case
  proof (intro conjI allI impI)
    show "length rows = length (b # bs)" by (simp add: rows len)
  next
    fix i assume "i < length (b # bs)"
    then show "stats_row_of r ((b # bs) ! i) (idx + i) = Inr (rows ! i)"
      using row nth [of "i - 1"] by (cases i) (simp_all add: rows)
  qed
qed

lemma stats_row_of_winRate:
  "stats_row_of r b idx = Inr row \<Longrightarrow> win_rate (wins r idx) (losses r idx) = Inr (winRate row)"
  by (auto simp: stats_row_of_def Let_def split: sum.splits if_splits)

text \<open>
  Claim C8, as the code has it.  For every competitor \<open>i\<close> whose \<^verbatim>\<open>wins\<close> and
  \<^verbatim>\<open>losses\<close> are counts \<open>a\<close> and \<open>b\<close> (with \<open>a + b\<close> below \<open>2^53\<close>, so that the sum is
  exact), the win rate in the row of \<^verbatim>\<open>calculateWinRates\<close> is the number \<^verbatim>\<open>0\<close> when
  \<open>a + b\<close> is zero (\<^verbatim>\<open>'N/A'\<close> is shown only for the average number of turns to win),
  and otherwise the percentage as the doubles compute it: the quotient \<open>a / (a + b)\<close>
  rounded to a double, its product with \<open>100\<close> rounded to a double, that double
  written with one decimal by \<^verbatim>\<open>toFixed(1)\<close>, and the decimal read back by
  \<^verbatim>\<open>parseFloat\<close>.  This is not always the exact percentage rounded to one decimal:
  \<open>23\<close> wins and \<open>57\<close> losses give \<open>28.7\<close>, where the exact percentage is \<open>28.75\<close>.
\<close>

theorem displayed_win_rate:
  assumes "calculateWinRates (Some r) = Some (Inr rows)"
    and "i < length (bot_names r)"
    and "wins r i = Num (of_nat a)" and "losses r i = Num (of_nat b)"
    and "a + b < 2 ^ 53"
  shows "length rows = length (bot_names r) \<and>
         winRate (rows ! i) =
           (if 0 < a + b
            then Num (binary64 (round1 (binary64 (binary64 (of_nat a / of_nat (a + b)) * 100))))
            else Num 0)"
proof -
  from assms(1) have rows: "map_rows r (bot_names r) 0 = Inr rows"
    by (simp add: calculateWinRates_def)
  from map_rows_nth [OF rows] assms(2)
  have len: "length rows = length (bot_names r)"
    and row: "stats_row_of r (bot_names r ! i) i = Inr (rows ! i)"
    by simp_all
  from stats_row_of_winRate [OF row] assms(3,4)
  have "win_rate (Num (of_nat a)) (Num (of_nat b)) = Inr (winRate (rows ! i))" by simp
  then have "winRate (rows ! i) =
      (if 0 < (of_nat a :: rat) + of_nat b
       then Num (binary64 (round1 (binary64 (binary64 (of_nat a / (of_nat a + of_nat b)) * 100))))
       else Num 0)"
    by (simp only: win_rate_Num sum.inject)
  moreover have "(0 < (of_nat a :: rat) + of_nat b) = (0 < a + b)"
    by (simp only: of_nat_add [symmetric] of_nat_0_less_iff)
  ultimately show ?thesis using len by (simp only: of_nat_add)
qed

theorem displayed_win_rate_witness:
  "calculateWinRates
     (Some ((empty_results [''a''])\<lparr>arena_results.wins := array_fill 1 (Num 23),
        arena_results.losses := array_fill 1 (Num 57),
        arena_results.gamesPlayed := array_fill 1 (Num 80)\<rparr>)) =
     Some (Inr [\<lparr> stats_row.name = ''a'', stats_row.wins = Num 23, stats_row.losses = Num 57,
                  stats_row.gamesPlayed = Num 80, winRate = Num (binary64 (287 / 10)),
                  avgPoints = Fixed1 0, stats_row.avgGameLength = Fixed1 0,
                  stats_row.avgWinTurns = NA \<rparr>]) \<and>
   winRate
     ([\<lparr> stats_row.name = ''a'', stats_row.wins = Num 23, stats_row.losses = Num 57,
         stats_row.gamesPlayed = Num 80, winRate = Num (binary64 (287 / 10)),
         avgPoints = Fixed1 0, stats_row.avgGameLength = Fixed1 0,
         stats_row.avgWinTurns = NA \<rparr>] ! 0) =
     Num (binary64 (round1 (binary64 (binary64 (of_nat 23 / of_nat (23 + 57)) * 100)))) \<and>
   binary64 (binary64 (23 / 80) * 100) = 8092405580431359 / 2 ^ 48 \<and>
   round1 (binary64 (binary64 (23 / 80) * 100)) = 287 / 10"
proof -
  define r where "r = (empty_results [''a''])\<lparr>arena_results.wins := array_fill 1 (Num 23),
        arena_results.losses := array_fill 1 (Num 57),
        arena_results.gamesPlayed := array_fill 1 (Num 80)\<rparr>"
  define row where "row = \<lparr> stats_row.name = ''a'', stats_row.wins = Num 23,
         stats_row.losses = Num 57,
         stats_row.gamesPlayed = Num 80, winRate = Num (binary64 (287 / 10)),
         avgPoints = Fixed1 0, stats_row.avgGameLength = Fixed1 0,
         stats_row.avgWinTurns = NA \<rparr>"
  have double: "binary64 (binary64 (23 / 80) * 100) = 8092405580431359 / 2 ^ 48"
    by code_simp
  have shown: "round1 (8092405580431359 / 2 ^ 48) = 287 / 10"
    by code_simp
  have run: "calculateWinRates (Some r) = Some (Inr [row])"
    unfolding r_def row_def by code_simp
  have i: "0 < length (bot_names r)" by (simp add: r_def empty_results_def)
  have w: "wins r 0 = Num (of_nat 23)" and l: "losses r 0 = Num (of_nat 57)"
    by (simp_all add: r_def array_fill_def)
  have small: "(23::nat) + 57 < 2 ^ 53" by simp
  have shown_double: "round1 (binary64 (binary64 (23 / 80) * 100)) = 287 / 10"
    unfolding double by (rule shown)
  from displayed_win_rate [OF run i w l small]
  have rate: "winRate ([row] ! 0) =
      Num (binary64 (round1 (binary64 (binary64 (of_nat 23 / of_nat (23 + 57)) * 100))))"
    by simp
  from run rate double shown_double show ?thesis
    unfolding r_def row_def by (intro conjI)
qed

text \<open>
  The claim as the specification states it fails twice: with no games played the
  row shows the number \<^verbatim>\<open>0\<close>, not \<^verbatim>\<open>N/A\<close>, and one win out of one game shows
  \<^verbatim>\<open>100\<close>, not the ratio \<^verbatim>\<open>1\<close>.
\<close>

theorem displayed_win_rate_counterexample:
  "calculateWinRates (Some (empty_results [''a''])) =
     Some (Inr [\<lparr> stats_row.name = ''a'', stats_row.wins = Num 0, stats_row.losses = Num 0,
                  stats_row.gamesPlayed = Num 0, winRate = Num 0, avgPoints = Fixed1 0,
                  stats_row.avgGameLength = Fixed1 0, stats_row.avgWinTurns = NA \<rparr>]) \<and>
   win_rate (Num 1) (Num 0) = Inr (Num 100)"
  by code_simp

section \<open>Proofs: round-robin scheduling\<close>

lemma getBotConfig_known:
  assumes "i < length bots" and "known_profile (bots ! i)"
  shows "\<exists>c. getBotConfig gtl gil bots i = Inr c"
  using assms
  by (auto simp: getBotConfig_def known_profile_def Let_def map_of_eq_None_iff
      split: option.splits if_splits)

lemma getBotConfig_config_of:
  assumes "i < length bots" and "known_profile (bots ! i)"
  shows "getBotConfig gtl gil bots i = Inr (config_of gtl gil bots i)"
  using getBotConfig_known [OF assms, of gtl gil] by (auto simp: config_of_def)

lemma tasks_inner_closed:
  assumes "\<forall>b \<in> set bots. known_profile b" and "i < length bots"
  shows "tasks_inner gtl gil bots k i j acc =
           Inr (acc @ map (pair_task gtl gil bots k i) [j..<length bots])"
  using assms
proof (induction gtl gil bots k i j acc rule: tasks_inner.induct)
  case (1 gtl gil bots k i j tasks)
  show ?case
  proof (cases "j < length bots")
    case True
    have ci: "getBotConfig gtl gil bots i = Inr (config_of gtl gil bots i)"
      using 1 by (simp add: getBotConfig_config_of)
    have cj: "getBotConfig gtl gil bots j = Inr (config_of gtl gil bots j)"
      using 1 True by (simp add: getBotConfig_config_of)
    have "tasks_inner gtl gil bots k i j tasks =
            tasks_inner gtl gil bots k i (j + 1) (tasks @ [pair_task gtl gil bots k i j])"
      using True by (subst tasks_inner.simps) (simp add: ci cj pair_task_def)
    also have "\<dots> = Inr ((tasks @ [pair_task gtl gil bots k i j]) @
                      map (pair_task gtl gil bots k i) [j + 1..<length bots])"
      using "1.IH" [OF True ci cj] "1.prems" by (simp add: pair_task_def)
    also have "\<dots> = Inr (tasks @ map (pair_task gtl gil bots k i) [j..<length bots])"
      using True by (simp add: upt_conv_Cons)
    finally show ?thesis .
  next
    case False
    then show ?thesis by (subst tasks_inner.simps) simp
  qed
qed

lemma tasks_outer_closed:
  assumes "\<forall>b \<in> set bots. known_profile b"
  shows "tasks_outer gtl gil bots k i acc =
           Inr (acc @ concat (map (\<lambda>i. map (pair_task gtl gil bots k i) [i + 1..<length bots])
                               [i..<length bots]))"
  using assms
proof (induction gtl gil bots k i acc rule: tasks_outer.induct)
  case (1 gtl gil bots k i tasks)
  show ?case
  proof (cases "i < length bots")
    case True
    have inner: "tasks_inner gtl gil bots k i (i + 1) tasks =
                   Inr (tasks @ map (pair_task gtl gil bots k i) [i + 1..<length bots])"
      using tasks_inner_closed [OF "1.prems" True] .
    have "tasks_outer gtl gil bots k i tasks =
            tasks_outer gtl gil bots k (i + 1)
              (tasks @ map (pair_task gtl gil bots k i) [i + 1..<length bots])"
      using True inner by (subst tasks_outer.simps) simp
    also have "\<dots> = Inr ((tasks @ map (pair_task gtl gil bots k i) [i + 1..<length bots]) @
                 concat (map (\<lambda>i. map (pair_task gtl gil bots k i) [i + 1..<length bots])
                           [i + 1..<length bots]))"
      using "1.IH" [OF True inner] "1.prems" by simp
    also have "\<dots> = Inr (tasks @ concat (map (\<lambda>i. map (pair_task gtl gil bots k i) [i + 1..<length bots])
                               [i..<length bots]))"
      using True by (simp add: upt_conv_Cons)
    finally show ?thesis .
  next
    case False
    then show ?thesis by (subst tasks_outer.simps) simp
  qed
qed

lemma task_pair_pair_task: "task_pair (pair_task gtl gil bots k i j) = (i, j)"
  by (simp add: task_pair_def pair_task_def make_task_def)

lemma map_task_pair_concat:
  "map task_pair (concat (map (\<lambda>i. map (pair_task gtl gil bots k i) [i + 1..<c]) [0..<c]))
     = round_robin_pairs c"
  by (simp add: round_robin_pairs_def map_concat comp_def task_pair_pair_task)

lemma set_round_robin_pairs: "set (round_robin_pairs c) = {(i, j). i < j \<and> j < c}"
proof -
  have "(a, b) \<in> set (round_robin_pairs c)" if "a < b" "b < c" for a b
  proof -
    from that have "a \<in> set [0..<c]" "(a, b) \<in> set (map (\<lambda>j. (a, j)) [a + 1..<c])"
      by auto
    then show ?thesis unfolding round_robin_pairs_def set_concat by (auto simp del: set_upt)
  qed
  moreover have "a < b \<and> b < c" if "(a, b) \<in> set (round_robin_pairs c)" for a b
    using that by (auto simp: round_robin_pairs_def)
  ultimately show ?thesis by auto
qed

lemma distinct_concat_pairs:
  "distinct xs \<Longrightarrow> distinct (concat (map (\<lambda>i. map (\<lambda>j. (i, j)) [i + 1..<c]) xs))"
  by (induction xs) (auto simp: distinct_map inj_on_def)

lemma distinct_round_robin_pairs: "distinct (round_robin_pairs c)"
  unfolding round_robin_pairs_def by (rule distinct_concat_pairs) simp

lemma sum_list_pairs_step:
  "(\<Sum>i\<leftarrow>[0..<Suc c]. Suc c - (i + 1)) = c + (\<Sum>i\<leftarrow>[0..<c]. c - (i + 1))"
proof -
  have "[0..<Suc c] = 0 # map Suc [0..<c]"
    by (simp add: upt_conv_Cons map_Suc_upt)
  then show ?thesis by (simp add: comp_def)
qed

lemma sum_list_pairs_double: "2 * (\<Sum>i\<leftarrow>[0..<c]. c - (i + 1)) = c * (c - 1)"
proof (induction c)
  case 0
  show ?case by simp
next
  case (Suc c)
  have "2 * (\<Sum>i\<leftarrow>[0..<Suc c]. Suc c - (i + 1)) = 2 * c + 2 * (\<Sum>i\<leftarrow>[0..<c]. c - (i + 1))"
    by (simp only: sum_list_pairs_step distrib_left)
  also have "\<dots> = 2 * c + c * (c - 1)"
    by (simp only: Suc.IH)
  also have "\<dots> = Suc c * (Suc c - 1)"
    by (cases c) simp_all
  finally show ?case .
qed

lemma length_round_robin_pairs: "length (round_robin_pairs c) = c * (c - 1) div 2"
proof -
  have "length (round_robin_pairs c) = (\<Sum>i\<leftarrow>[0..<c]. c - (i + 1))"
    by (simp add: round_robin_pairs_def length_concat comp_def)
  with sum_list_pairs_double [of c] show ?thesis by simp
qed

lemma in_concat_pairs:
  assumes "t \<in> set (concat (map (\<lambda>i. map (f i) [i + 1..<n]) [0..<n]))"
  shows "\<exists>i j. i < j \<and> j < n \<and> t = f i j"
proof -
  from assms have "t \<in> (\<Union>i\<in>{0..<n}. f i ` {i + 1..<n})"
    by simp
  then obtain i where "t \<in> f i ` {i + 1..<n}" ..
  then obtain j where "t = f i j" "j \<in> {i + 1..<n}" ..
  then have "i < j \<and> j < n \<and> t = f i j" by simp
  then show ?thesis by (intro exI)
qed

text \<open>
  Claim C5.  For every list of \<open>C \<ge> 2\<close> bots whose configurations can be built and
  every number \<open>k\<close> of games per matchup, the scheduling loops return a task list of
  length \<open>C * (C - 1) div 2\<close>; the pairs of the tasks are distinct and are exactly the
  pairs \<open>(i, j)\<close> with \<open>i < j < C\<close> (so no pair is repeated and no bot meets itself),
  and every task stands for \<open>k\<close> games between the configurations of its two bots.
\<close>

theorem round_robin_schedule:
  assumes "2 \<le> length bots" and "\<forall>b \<in> set bots. known_profile b"
  shows "\<exists>tasks. tournament_tasks gtl gil bots k = Inr tasks \<and>
           length tasks = length bots * (length bots - 1) div 2 \<and>
           distinct (map task_pair tasks) \<and>
           set (map task_pair tasks) = {(i, j). i < j \<and> j < length bots} \<and>
           (\<forall>t \<in> set tasks. gamesPerMatchup t = k \<and>
              getBotConfig gtl gil bots (task.bot1Index t) = Inr (bot1 t) \<and>
              getBotConfig gtl gil bots (task.bot2Index t) = Inr (bot2 t))"
proof -
  define n where "n = length bots"
  define tasks where
    "tasks = concat (map (\<lambda>i. map (pair_task gtl gil bots k i) [i + 1..<n]) [0..<n])"
  have run: "tournament_tasks gtl gil bots k = Inr tasks"
    using assms(1) tasks_outer_closed [OF assms(2), of gtl gil k 0 "[]"]
    by (simp add: tournament_tasks_def tasks_def n_def)
  have pairs: "map task_pair tasks = round_robin_pairs n"
    unfolding tasks_def by (rule map_task_pair_concat)
  have len: "length tasks = n * (n - 1) div 2"
    using arg_cong [OF pairs, of length] by (simp add: length_round_robin_pairs)
  have each: "gamesPerMatchup t = k \<and>
              getBotConfig gtl gil bots (task.bot1Index t) = Inr (bot1 t) \<and>
              getBotConfig gtl gil bots (task.bot2Index t) = Inr (bot2 t)"
    if "t \<in> set tasks" for t
  proof -
    from that have "\<exists>i j. i < j \<and> j < n \<and> t = pair_task gtl gil bots k i j"
      unfolding tasks_def by (rule in_concat_pairs)
    then obtain i j where "i < j" "j < n" and t: "t = pair_task gtl gil bots k i j"
      by blast
    then have ij: "i < n" "j < n" by simp_all
    from ij assms(2) have "known_profile (bots ! i)" "known_profile (bots ! j)"
      by (simp_all add: n_def)
    with ij show ?thesis
      by (simp add: t pair_task_def make_task_def getBotConfig_config_of n_def)
  qed
  show ?thesis
    using run len each pairs
    by (auto simp: distinct_round_robin_pairs set_round_robin_pairs n_def
        simp del: set_map)
qed

theorem round_robin_schedule_witness:
  "\<not> isl (tournament_tasks 2500 100000
       [\<lparr> bot.name = ''p'', isProfile = True, profile = ''Balanced'',
           bot.explorationParam = 0, bot.weights = getDefaultWeights \<rparr>,
        \<lparr> bot.name = ''q'', isProfile = False, profile = [],
           bot.explorationParam = 30, bot.weights = getDefaultWeights \<rparr>,
        \<lparr> bot.name = ''r'', isProfile = True, profile = ''Flexible'',
           bot.explorationParam = 0, bot.weights = getDefaultWeights \<rparr>] 10) \<and>
   length (projr (tournament_tasks 2500 100000
       [\<lparr> bot.name = ''p'', isProfile = True, profile = ''Balanced'',
           bot.explorationParam = 0, bot.weights = getDefaultWeights \<rparr>,
        \<lparr> bot.name = ''q'', isProfile = False, profile = [],
           bot.explorationParam = 30, bot.weights = getDefaultWeights \<rparr>,
        \<lparr> bot.name = ''r'', isProfile = True, profile = ''Flexible'',
           bot.explorationParam = 0, bot.weights = getDefaultWeights \<rparr>] 10)) = 3"
  using round_robin_schedule [of
       "[\<lparr> bot.name = ''p'', isProfile = True, profile = ''Balanced'',
           bot.explorationParam = 0, bot.weights = getDefaultWeights \<rparr>,
        \<lparr> bot.name = ''q'', isProfile = False, profile = [],
           bot.explorationParam = 30, bot.weights = getDefaultWeights \<rparr>,
        \<lparr> bot.name = ''r'', isProfile = True, profile = ''Flexible'',
           bot.explorationParam = 0, bot.weights = getDefaultWeights \<rparr>]" 2500 100000 10]
  by (auto simp: known_profile_def getProfiles_def)

section \<open>Proofs: the worker pool\<close>

lemma initialize_loop_closed:
  assumes "initialize_loop outcome i s = Inr s'" and "i \<le> workerCount s"
  shows "s' = s\<lparr>workers := workers s + (workerCount s - i),
                availableWorkers := availableWorkers s @ [i..<workerCount s]\<rparr>"
  using assms
proof (induction outcome i s rule: initialize_loop.induct)
  case (1 outcome i s)
  show ?case
  proof (cases "i < workerCount s")
    case True
    with "1.prems"(1) have oc: "outcome i = INIT_COMPLETE"
      by (subst (asm) initialize_loop.simps) (simp split: init_outcome.splits)
    let ?s = "s\<lparr>workers := workers s + 1, availableWorkers := availableWorkers s @ [i]\<rparr>"
    from "1.prems"(1) True oc have "initialize_loop outcome (i + 1) ?s = Inr s'"
      by (subst (asm) initialize_loop.simps) simp
    from "1.IH" [OF True oc this] True
    show ?thesis by (simp add: upt_conv_Cons)
  next
    case False
    with "1.prems" have "s' = s" "i = workerCount s"
      by (subst (asm) initialize_loop.simps, simp)+
    then show ?thesis by simp
  qed
qed

lemma initialize_new_pool:
  assumes "initialize outcome (new_pool n) = Inr s0"
  shows "s0 = (new_pool n)\<lparr>workers := n, availableWorkers := [0..<n]\<rparr>"
  using initialize_loop_closed [of outcome 0 "new_pool n" s0] assms
  by (simp add: initialize_def new_pool_def)

lemma initialize_all_complete:
  "initialize (\<lambda>i. INIT_COMPLETE) (new_pool n) = Inr ((new_pool n)\<lparr>workers := n, availableWorkers := [0..<n]\<rparr>)"
proof -
  have "\<exists>s'. initialize_loop (\<lambda>i. INIT_COMPLETE) i s = Inr s'" for i s
  proof (induction "\<lambda>i::nat. INIT_COMPLETE" i s rule: initialize_loop.induct)
    case (1 i s)
    show ?case
    proof (cases "i < workerCount s")
      case True
      with 1 show ?thesis by (subst initialize_loop.simps) simp
    next
      case False
      then show ?thesis by (subst initialize_loop.simps) simp
    qed
  qed
  then obtain s' where "initialize (\<lambda>i. INIT_COMPLETE) (new_pool n) = Inr s'"
    unfolding initialize_def by blast
  with initialize_new_pool [OF this] show ?thesis by simp
qed

text \<open>
  Claim C10.  For every pool, \<^verbatim>\<open>runTasks\<close> with an empty task list resolves its
  promise within the call, with the empty result list, and posts nothing to any
  worker: the resolution does not wait for a worker event.
\<close>

theorem runTasks_empty_resolves:
  "resolved (runTasks [] callback s) = [ [] ] \<and>
   results (runTasks [] callback s) = [] \<and>
   posted (runTasks [] callback s) = posted s"
  by (simp add: runTasks_def Let_def)

lemma processNextTask_started:
  assumes "k < n" "k < length tasks" "completedTasks b < totalTasks b"
  shows "processNextTask (started tasks n b k) = started tasks n b (k + 1)"
proof -
  have "hd (drop k tasks) = tasks ! k" "drop k tasks \<noteq> []" "hd [k..<n] = k" "[k..<n] \<noteq> []"
    using assms by (simp_all add: hd_drop_conv_nth upt_conv_Cons)
  moreover have "tl (drop k tasks) = drop (Suc k) tasks" "tl [k..<n] = [Suc k..<n]"
    using assms by (simp_all add: drop_Suc tl_drop upt_conv_Cons)
  moreover have "insert k {0..<k} = {0..<Suc k}"
    by auto
  ultimately show ?thesis
    using assms by (simp add: processNextTask_def started_def Let_def)
qed

lemma start_loop_started:
  assumes "i \<le> m" "m \<le> n" "m \<le> length tasks" "completedTasks b < totalTasks b"
  shows "start_loop i m (started tasks n b i) = started tasks n b m"
  using assms
proof (induction "m - i" arbitrary: i)
  case 0
  then show ?case by (subst start_loop.simps) simp
next
  case (Suc d)
  then have lt: "i < m" by simp
  have "start_loop i m (started tasks n b i) = start_loop (i + 1) m (started tasks n b (i + 1))"
    using lt Suc.prems by (subst start_loop.simps) (simp add: processNextTask_started)
  also have "\<dots> = started tasks n b m"
    using Suc.hyps Suc.prems lt by (intro Suc.hyps(1)) simp_all
  finally show ?case .
qed

lemma filter_fst_indexed:
  "filter (\<lambda>p. fst p = w) (map (\<lambda>i. (i, f i)) [0..<k]) = (if w < k then [(w, f w)] else [])"
  by (induction k) auto

lemma current_id_started:
  "w < k \<Longrightarrow> current_id (started tasks n b k) w = matchupId (tasks ! w)"
  by (simp add: current_id_def current_task_def started_def filter_fst_indexed)

lemma take_as_map_nth: "k \<le> length xs \<Longrightarrow> take k xs = map ((!) xs) [0..<k]"
  by (metis map_nth take_map take_upt add_0)

lemma busy_ids_started:
  assumes "k \<le> length tasks"
  shows "image_mset (current_id (started tasks n b k)) (mset_set {0..<k})
           = mset (map matchupId (take k tasks))"
proof -
  have "image_mset (current_id (started tasks n b k)) (mset_set {0..<k})
          = mset (map (current_id (started tasks n b k)) [0..<k])"
    by (simp add: mset_upt [symmetric] del: mset_upt)
  also have "map (current_id (started tasks n b k)) [0..<k] = map (\<lambda>i. matchupId (tasks ! i)) [0..<k]"
    by (rule map_cong) (simp_all add: current_id_started)
  also have "\<dots> = map matchupId (take k tasks)"
    using assms by (simp add: take_as_map_nth)
  finally show ?thesis .
qed

lemma pool_inv_started:
  assumes "0 < n" "tasks \<noteq> []" "k = min n (length tasks)"
    and b: "totalTasks b = length tasks" "completedTasks b = 0" "resolveComplete b"
      "resolved b = []" "results b = []"
  shows "pool_inv tasks (started tasks n b k) []"
proof -
  have k: "0 < k" "k \<le> length tasks" "k \<le> n" using assms by auto
  have "mset (map matchupId (take k tasks)) + mset (map matchupId (drop k tasks))
          = mset (map matchupId tasks)"
    by (metis append_take_drop_id map_append mset_append)
  then have ids: "image_mset (current_id (started tasks n b k)) (mset_set {0..<k})
      + mset (map matchupId (drop k tasks)) = mset (map matchupId tasks)"
    using busy_ids_started [OF k(2)] by simp
  have busy: "busyWorkers (started tasks n b k) = {0..<k}"
    and queue: "taskQueue (started tasks n b k) = drop k tasks"
    and avail: "availableWorkers (started tasks n b k) = [k..<n]"
    by (simp_all add: started_def)
  show ?thesis
    unfolding pool_inv_def busy queue avail
    using k b ids assms(2) by (auto simp: started_def)
qed

lemma runTasks_started:
  assumes "s0 = (new_pool n)\<lparr>workers := n, availableWorkers := [0..<n]\<rparr>"
    and "0 < n" "tasks \<noteq> []"
  shows "\<exists>b. runTasks tasks callback s0 = started tasks n b (min n (length tasks)) \<and>
             totalTasks b = length tasks \<and> completedTasks b = 0 \<and> resolveComplete b \<and>
             resolved b = [] \<and> results b = []"
proof -
  define b where "b = s0\<lparr>taskQueue := tasks,
                totalTasks := length tasks,
                completedTasks := 0,
                results := [],
                progressCallback := callback,
                totalGames := fold (\<lambda>task sum. sum + gamesPerMatchup task) tasks 0,
                completedGames := 0, resolveComplete := True, rejectComplete := True, resolved := []\<rparr>"
  have st: "b = started tasks n b 0"
    by (simp add: b_def started_def assms(1) new_pool_def)
  have "runTasks tasks callback s0 = start_loop 0 (min n (length tasks)) b"
    using assms by (simp add: runTasks_def Let_def b_def new_pool_def)
  also have "\<dots> = start_loop 0 (min n (length tasks)) (started tasks n b 0)"
    using st by simp
  also have "\<dots> = started tasks n b (min n (length tasks))"
    using assms by (intro start_loop_started) (simp_all add: b_def)
  finally show ?thesis
    by (intro exI [of _ b]) (simp add: b_def)
qed

lemma current_id_posted_other:
  assumes "posted s' = posted s @ [(w', t)]" and "v \<noteq> w'"
  shows "current_id s' v = current_id s v"
  using assms by (simp add: current_id_def current_task_def)

lemma current_id_posted_same:
  assumes "posted s' = posted s @ [(w', t)]"
  shows "current_id s' w' = matchupId t"
  using assms by (simp add: current_id_def current_task_def)

lemma current_id_posted_eq:
  assumes "posted s' = posted s"
  shows "current_id s' = current_id s"
  using assms by (simp add: current_id_def current_task_def fun_eq_iff)

lemma busy_ids_remove:
  assumes "finite B" "w \<in> B"
  shows "image_mset f (mset_set B) = add_mset (f w) (image_mset f (mset_set (B - {w})))"
  using assms by (simp add: mset_set.remove)

lemma busy_ids_insert:
  assumes "finite B" "w' \<notin> B" "\<And>v. v \<in> B \<Longrightarrow> g v = f v"
  shows "image_mset g (mset_set (insert w' B)) = add_mset (g w') (image_mset f (mset_set B))"
proof -
  have "image_mset g (mset_set B) = image_mset f (mset_set B)"
    using assms by (intro image_mset_cong) simp
  with assms show ?thesis by simp
qed

lemma finish_task_inv:
  assumes inv: "pool_inv tasks s out"
    and w: "w \<in> busyWorkers s"
    and s1: "s1 = s\<lparr>results := R, completedTasks := completedTasks s + 1,
                    busyWorkers := busyWorkers s - {w},
                    availableWorkers := availableWorkers s @ [w]\<rparr>"
    and R: "map fst R = map fst (filter snd (out @ [(current_id s w, ok)]))"
  shows "pool_inv tasks (processNextTask s1) (out @ [(current_id s w, ok)])"
proof -
  let ?out = "out @ [(current_id s w, ok)]"
  from inv have fin: "finite (busyWorkers s)"
    and dist: "distinct (availableWorkers s)"
    and disj: "set (availableWorkers s) \<inter> busyWorkers s = {}"
    and total: "totalTasks s = length tasks"
    and compl: "completedTasks s = length out"
    and count: "length out + card (busyWorkers s) + length (taskQueue s) = length tasks"
    and queue: "taskQueue s \<noteq> [] \<longrightarrow> busyWorkers s \<noteq> {}"
    and rc: "resolveComplete s = (length out < length tasks)"
    and res: "resolved s = (if length out < length tasks then [] else [results s])"
    and ids: "mset (map fst out) + image_mset (current_id s) (mset_set (busyWorkers s))
       + mset (map matchupId (taskQueue s)) = mset (map matchupId tasks)"
    by (simp_all add: pool_inv_def)
  from fin w have card_pos: "0 < card (busyWorkers s)"
    by (auto simp: card_gt_0_iff)
  with count have lt: "length out < length tasks" by simp
  from w disj have w_avail: "w \<notin> set (availableWorkers s)" by auto
  from fin w have card_rm: "card (busyWorkers s - {w}) = card (busyWorkers s) - 1"
    by simp
  have ids_rm: "image_mset (current_id s) (mset_set (busyWorkers s))
      = add_mset (current_id s w) (image_mset (current_id s) (mset_set (busyWorkers s - {w})))"
    by (rule busy_ids_remove [OF fin w])
  show ?thesis
  proof (cases "length tasks \<le> length out + 1")
    case True
    with count card_pos have one: "card (busyWorkers s) = 1"
      and all_done: "length out + 1 = length tasks"
      by arith+
    from True count card_pos have "length (taskQueue s) = 0"
      by arith
    then have noq: "taskQueue s = []" by simp
    from one w fin have empty: "busyWorkers s - {w} = {}"
      by (metis card_1_singletonE Diff_cancel singletonD)
    have step: "processNextTask s1 =
                  s1\<lparr>resolveComplete := False, rejectComplete := False, resolved := [R]\<rparr>"
      using True lt by (simp add: processNextTask_def s1 total compl rc res)
    have single: "image_mset (current_id s) (mset_set (busyWorkers s)) = {#current_id s w#}"
      using ids_rm unfolding empty by simp
    have ids': "mset (map fst out) + {#current_id s w#} = mset (map matchupId tasks)"
      using ids unfolding single noq by simp
    define s2 where "s2 = s1\<lparr>resolveComplete := False, rejectComplete := False, resolved := [R]\<rparr>"
    have s2_fields: "busyWorkers s2 = {}"
      "availableWorkers s2 = availableWorkers s @ [w]"
      "taskQueue s2 = []" "totalTasks s2 = length tasks"
      "completedTasks s2 = length out + 1" "resolveComplete s2 = False"
      "resolved s2 = [R]" "results s2 = R"
      by (simp_all add: s2_def s1 empty noq total compl)
    show ?thesis
      unfolding step s2_def [symmetric] pool_inv_def s2_fields
      using dist w_avail all_done ids' R
      by simp
  next
    case False
    then have more: "length out + 1 < length tasks" by simp
    show ?thesis
    proof (cases "taskQueue s = []")
      case True
      have step: "processNextTask s1 = s1"
        using more True by (simp add: processNextTask_def s1 total compl)
      from count True more have "2 \<le> card (busyWorkers s)" by simp
      with card_rm have "0 < card (busyWorkers s - {w})" by arith
      then have nonempty: "busyWorkers s - {w} \<noteq> {}"
        by (auto simp: card_gt_0_iff)
      have cur: "current_id s1 = current_id s"
        by (rule current_id_posted_eq) (simp add: s1)
      have s1_fields: "busyWorkers s1 = busyWorkers s - {w}"
        "availableWorkers s1 = availableWorkers s @ [w]"
        "taskQueue s1 = []" "totalTasks s1 = length tasks"
        "completedTasks s1 = length out + 1" "resolveComplete s1 = resolveComplete s"
        "resolved s1 = resolved s" "results s1 = R"
        by (simp_all add: s1 True total compl)
      have disj1: "set (availableWorkers s @ [w]) \<inter> (busyWorkers s - {w}) = {}"
        using disj by auto
      have count1: "length out + 1 + card (busyWorkers s - {w}) = length tasks"
        using count True card_rm card_pos by simp
      have ids1: "mset (map fst out) + {#current_id s w#}
          + image_mset (current_id s) (mset_set (busyWorkers s - {w})) = mset (map matchupId tasks)"
        using ids unfolding ids_rm True by simp
      show ?thesis
        unfolding step pool_inv_def cur s1_fields
        using fin dist w_avail disj1 more count1 rc res lt ids1 R nonempty
        by simp
    next
      case False
      define w' where "w' = hd (availableWorkers s @ [w])"
      define t where "t = hd (taskQueue s)"
      define s2 where "s2 = s1\<lparr>taskQueue := tl (taskQueue s),
              availableWorkers := tl (availableWorkers s @ [w]),
              busyWorkers := insert w' (busyWorkers s - {w}),
              posted := posted s @ [(w', t)]\<rparr>"
      have step: "processNextTask s1 = s2"
        using more False
        by (simp add: processNextTask_def s1 s2_def total compl Let_def w'_def t_def)
      have dist': "distinct (availableWorkers s @ [w])"
        using dist w_avail by simp
      have w'_in: "w' \<in> set (availableWorkers s) \<union> {w}"
        unfolding w'_def by (cases "availableWorkers s") simp_all
      then have w'_busy: "w' \<notin> busyWorkers s - {w}"
        using disj by auto
      have tl_dist: "distinct (tl (availableWorkers s @ [w]))"
        using dist' by (rule distinct_tl)
      have w'_tl: "w' \<notin> set (tl (availableWorkers s @ [w]))"
        using dist' unfolding w'_def
        by (cases "availableWorkers s @ [w]") simp_all
      have tl_sub: "set (tl (availableWorkers s @ [w])) \<subseteq> set (availableWorkers s) \<union> {w}"
        by (cases "availableWorkers s") auto
      have disj': "set (tl (availableWorkers s @ [w])) \<inter> insert w' (busyWorkers s - {w}) = {}"
        using tl_sub w'_tl disj by auto
      have card': "card (insert w' (busyWorkers s - {w})) = card (busyWorkers s)"
        using fin w'_busy card_rm card_pos by simp
      have posted2: "posted s2 = posted s @ [(w', t)]"
        by (simp add: s2_def)
      have ids_ins: "image_mset (current_id s2) (mset_set (insert w' (busyWorkers s - {w})))
          = add_mset (matchupId t) (image_mset (current_id s) (mset_set (busyWorkers s - {w})))"
      proof -
        have "image_mset (current_id s2) (mset_set (insert w' (busyWorkers s - {w})))
          = add_mset (current_id s2 w') (image_mset (current_id s) (mset_set (busyWorkers s - {w})))"
          using fin w'_busy
          by (intro busy_ids_insert) (auto intro: current_id_posted_other [OF posted2])
        then show ?thesis by (simp add: current_id_posted_same [OF posted2])
      qed
      have q: "mset (map matchupId (taskQueue s)) =
                 add_mset (matchupId t) (mset (map matchupId (tl (taskQueue s))))"
        using False unfolding t_def by (cases "taskQueue s") simp_all
      have len_q: "length (tl (taskQueue s)) = length (taskQueue s) - 1" "0 < length (taskQueue s)"
        using False by simp_all
      have s2_fields: "busyWorkers s2 = insert w' (busyWorkers s - {w})"
        "availableWorkers s2 = tl (availableWorkers s @ [w])"
        "taskQueue s2 = tl (taskQueue s)" "totalTasks s2 = totalTasks s"
        "completedTasks s2 = completedTasks s + 1" "resolveComplete s2 = resolveComplete s"
        "resolved s2 = resolved s" "results s2 = R"
        by (simp_all add: s2_def s1)
      have count2: "length out + 1 + card (busyWorkers s) + length (tl (taskQueue s)) = length tasks"
        using count len_q by arith
      have ids2: "mset (map fst out) + {#current_id s w#}
          + add_mset (matchupId t) (image_mset (current_id s) (mset_set (busyWorkers s - {w})))
          + mset (map matchupId (tl (taskQueue s))) = mset (map matchupId tasks)"
        using ids unfolding ids_rm q by simp
      show ?thesis
        unfolding step pool_inv_def s2_fields card' ids_ins
        using fin tl_dist disj' total compl count2 more rc res lt ids2 R
        by simp
    qed
  qed
qed

lemma pool_inv_cong:
  assumes "pool_inv tasks s out"
    and "busyWorkers s' = busyWorkers s" "availableWorkers s' = availableWorkers s"
    "taskQueue s' = taskQueue s" "totalTasks s' = totalTasks s"
    "completedTasks s' = completedTasks s" "resolveComplete s' = resolveComplete s"
    "resolved s' = resolved s" "results s' = results s" "posted s' = posted s"
  shows "pool_inv tasks s' out"
  using assms(1) unfolding pool_inv_def assms(2-9) current_id_posted_eq [OF assms(10)] .

lemma from_worker_id:
  assumes "map_option matchupId (current_task s w) = Some mid"
  shows "current_id s w = mid"
  using assms by (auto simp: current_id_def)

lemma pool_step_inv:
  assumes inv: "pool_inv tasks s out" and ev: "from_worker s e"
  shows "pool_inv tasks (pool_step e s)
           (out @ (if terminal e then [(current_id s (event_worker e), success e)] else []))"
proof (cases e)
  case (WorkerMessage w m)
  show ?thesis
  proof (cases m)
    case (GAME_COMPLETE mid g)
    have "pool_inv tasks (pool_step e s) out"
      by (rule pool_inv_cong [OF inv]) (simp_all add: WorkerMessage GAME_COMPLETE Let_def)
    then show ?thesis by (simp add: WorkerMessage GAME_COMPLETE)
  next
    case (MATCHUP_COMPLETE mid rs)
    from ev have w: "w \<in> busyWorkers s" and mid: "current_id s w = mid"
      by (simp_all add: WorkerMessage MATCHUP_COMPLETE from_worker_id)
    from inv have "map fst (results s) = map fst (filter snd out)"
      by (simp add: pool_inv_def)
    then have "map fst (results s @ [(mid, rs)]) = map fst (filter snd (out @ [(current_id s w, True)]))"
      by (simp add: mid)
    from finish_task_inv [OF inv w refl this]
    show ?thesis by (simp add: WorkerMessage MATCHUP_COMPLETE)
  next
    case (MATCHUP_ERROR mid err)
    from ev have w: "w \<in> busyWorkers s"
      by (simp add: WorkerMessage MATCHUP_ERROR)
    from inv have "map fst (results s) = map fst (filter snd (out @ [(current_id s w, False)]))"
      by (simp add: pool_inv_def)
    from finish_task_inv [OF inv w refl this]
    show ?thesis by (simp add: WorkerMessage MATCHUP_ERROR)
  next
    case (OTHER_MESSAGE ty)
    with inv show ?thesis by (simp add: WorkerMessage)
  qed
next
  case (WorkerError w)
  from ev have w: "w \<in> busyWorkers s"
    by (simp add: WorkerError)
  from inv have "map fst (results s) = map fst (filter snd (out @ [(current_id s w, False)]))"
    by (simp add: pool_inv_def)
  from finish_task_inv [OF inv w refl this]
  have A: "pool_inv tasks
          (processNextTask
             (s\<lparr>results := results s, completedTasks := completedTasks s + 1,
                busyWorkers := busyWorkers s - {w},
                availableWorkers := availableWorkers s @ [w]\<rparr>))
          (out @ [(current_id s w, False)])" .
  have eq: "s\<lparr>busyWorkers := busyWorkers s - {w},
           availableWorkers := availableWorkers s @ [w],
           completedTasks := completedTasks s + 1\<rparr>
      = s\<lparr>results := results s, completedTasks := completedTasks s + 1,
                busyWorkers := busyWorkers s - {w},
                availableWorkers := availableWorkers s @ [w]\<rparr>"
    by (cases s) simp
  have B: "pool_step e s = processNextTask
             (s\<lparr>results := results s, completedTasks := completedTasks s + 1,
                busyWorkers := busyWorkers s - {w},
                availableWorkers := availableWorkers s @ [w]\<rparr>)"
    by (simp only: WorkerError pool_step.simps handleWorkerError_def w if_True eq)
  have C: "(if terminal e then [(current_id s (event_worker e), success e)] else [])
             = [(current_id s w, False)]"
    by (simp add: WorkerError)
  show ?thesis unfolding B C by (rule A)
qed

lemma pool_trace_inv:
  assumes "pool_inv tasks s out" and "valid_trace s evs"
  shows "pool_inv tasks (run_pool evs s) (out @ outcomes s evs)"
  using assms
proof (induction evs arbitrary: s out)
  case Nil
  then show ?case by (simp add: run_pool_def)
next
  case (Cons e evs)
  from Cons.prems have ev: "from_worker s e" and rest: "valid_trace (pool_step e s) evs"
    by simp_all
  from Cons.IH [OF pool_step_inv [OF Cons.prems(1) ev] rest]
  show ?case by (simp add: run_pool_def)
qed

lemma length_outcomes: "length (outcomes s evs) = length (filter terminal evs)"
  by (induction evs arbitrary: s) simp_all

lemma results_processNextTask: "results (processNextTask s) = results s"
  by (simp add: processNextTask_def Let_def)

lemma results_pool_step: "results (pool_step e s) = results s @ completed_of [e]"
proof (cases e)
  case (WorkerMessage w m)
  then show ?thesis
    by (cases m) (simp_all add: results_processNextTask Let_def)
next
  case (WorkerError w)
  then show ?thesis by (simp add: handleWorkerError_def results_processNextTask)
qed

lemma completed_of_Cons: "completed_of (e # es) = completed_of [e] @ completed_of es"
proof (cases e)
  case (WorkerMessage w m)
  then show ?thesis by (cases m) simp_all
next
  case (WorkerError w)
  then show ?thesis by simp
qed

lemma results_run_pool: "results (run_pool evs s) = results s @ completed_of evs"
proof (induction evs arbitrary: s)
  case Nil
  then show ?case by (simp add: run_pool_def)
next
  case (Cons e evs)
  have "results (run_pool (e # evs) s) = results (run_pool evs (pool_step e s))"
    by (simp add: run_pool_def)
  also have "\<dots> = (results s @ completed_of [e]) @ completed_of evs"
    by (simp only: Cons.IH results_pool_step)
  also have "\<dots> = results s @ completed_of (e # evs)"
    by (simp add: completed_of_Cons [of e evs])
  finally show ?case .
qed

text \<open>
  Claim C1, as the code has it.  Take a pool of \<open>n > 0\<close> workers that
  \<^verbatim>\<open>initialize\<close> has made ready, a list of \<open>T > 0\<close> tasks, and any sequence of worker
  events after \<^verbatim>\<open>runTasks\<close> in which every event comes from a busy worker and names
  the task that worker was sent.  Then at most \<open>T\<close> tasks end; \<^verbatim>\<open>resolve\<close> is called
  exactly once, at the event that ends the \<open>T\<close>-th task, and not before; the list it
  receives holds one entry per \<^verbatim>\<open>MATCHUP_COMPLETE\<close> message, in completion order,
  tagged with the \<^verbatim>\<open>matchupId\<close> of the task that completed.  A task that ends with
  \<^verbatim>\<open>MATCHUP_ERROR\<close> or with the \<^verbatim>\<open>error\<close> event of its worker adds no entry.  The tasks
  ended are tasks of the submission, each ended once, and all of them once \<open>T\<close> have
  ended; while fewer have ended some worker is still busy.
\<close>

theorem pool_submission_outcomes:
  assumes "initialize outcome (new_pool n) = Inr s0"
    and "0 < n" and "tasks \<noteq> []"
    and "valid_trace (runTasks tasks callback s0) evs"
  shows "length (filter terminal evs) \<le> length tasks \<and>
         resolved (run_pool evs (runTasks tasks callback s0)) =
           (if length (filter terminal evs) = length tasks then [completed_of evs] else []) \<and>
         results (run_pool evs (runTasks tasks callback s0)) = completed_of evs \<and>
         map fst (completed_of evs) =
           map fst (filter snd (outcomes (runTasks tasks callback s0) evs)) \<and>
         mset (map fst (outcomes (runTasks tasks callback s0) evs)) \<subseteq># mset (map matchupId tasks) \<and>
         (length (filter terminal evs) = length tasks \<longrightarrow>
            mset (map fst (outcomes (runTasks tasks callback s0) evs)) = mset (map matchupId tasks)) \<and>
         (length (filter terminal evs) < length tasks \<longrightarrow>
            busyWorkers (run_pool evs (runTasks tasks callback s0)) \<noteq> {})"
proof -
  define s1 where "s1 = runTasks tasks callback s0"
  define s where "s = run_pool evs s1"
  define out where "out = outcomes s1 evs"
  from initialize_new_pool [OF assms(1)]
  have s0: "s0 = (new_pool n)\<lparr>workers := n, availableWorkers := [0..<n]\<rparr>" .
  from runTasks_started [OF s0 assms(2,3), of callback]
  obtain b where start: "s1 = started tasks n b (min n (length tasks))"
    and b: "totalTasks b = length tasks" "completedTasks b = 0" "resolveComplete b"
      "resolved b = []" "results b = []"
    unfolding s1_def by blast
  have "pool_inv tasks s1 []"
    unfolding start by (rule pool_inv_started [OF assms(2,3) refl b])
  from pool_trace_inv [OF this] assms(4)
  have inv: "pool_inv tasks s out"
    by (simp add: s_def s1_def out_def)
  have len: "length out = length (filter terminal evs)"
    by (simp add: out_def length_outcomes)
  have "results s1 = []"
    by (simp add: start started_def b)
  then have res: "results s = completed_of evs"
    by (simp add: s_def results_run_pool)
  from inv have fin: "finite (busyWorkers s)"
    and count: "length out + card (busyWorkers s) + length (taskQueue s) = length tasks"
    and queue: "taskQueue s \<noteq> [] \<longrightarrow> busyWorkers s \<noteq> {}"
    and resolved: "resolved s = (if length out < length tasks then [] else [results s])"
    and ids: "mset (map fst out) + image_mset (current_id s) (mset_set (busyWorkers s))
       + mset (map matchupId (taskQueue s)) = mset (map matchupId tasks)"
    and tags: "map fst (results s) = map fst (filter snd out)"
    by (simp_all add: pool_inv_def)
  have le: "length out \<le> length tasks"
    using count by arith
  have sub: "mset (map fst out) \<subseteq># mset (map matchupId tasks)"
    by (metis ids mset_subset_eq_add_left add.assoc)
  have all: "mset (map fst out) = mset (map matchupId tasks)" if "length out = length tasks"
  proof -
    from that count have "card (busyWorkers s) = 0" "length (taskQueue s) = 0"
      by arith+
    with fin have "busyWorkers s = {}" "taskQueue s = []" by simp_all
    with ids show ?thesis by simp
  qed
  have busy: "busyWorkers s \<noteq> {}" if "length out < length tasks"
  proof
    assume empty: "busyWorkers s = {}"
    with queue have "taskQueue s = []" by blast
    with empty count that show False by simp
  qed
  have "resolved s = (if length out = length tasks then [completed_of evs] else [])"
    using resolved le by (simp add: res)
  with le sub all busy tags show ?thesis
    unfolding len s_def [symmetric] s1_def [symmetric] out_def [symmetric] res
    by (simp add: s_def s1_def out_def len [symmetric])
qed

lemma ready_pool_initialized: "initialize all_complete (new_pool n) = Inr (ready_pool n)"
proof -
  have eq: "all_complete = (\<lambda>i. INIT_COMPLETE)"
    by (simp add: all_complete_def fun_eq_iff)
  show ?thesis
    unfolding eq by (simp add: initialize_all_complete ready_pool_def)
qed

theorem pool_submission_outcomes_witness:
  "resolved
     (run_pool
        [WorkerError 0,
         WorkerMessage 1 (MATCHUP_ERROR ''bot0_vs_bot2'' ''failed''),
         WorkerMessage 0 (MATCHUP_COMPLETE ''bot1_vs_bot2'' [example_game])]
        (runTasks [example_task 0 1, example_task 0 2, example_task 1 2] True (ready_pool 2)))
   = [ [(''bot1_vs_bot2'', [example_game])] ]"
proof -
  have valid: "valid_trace
     (runTasks [example_task 0 1, example_task 0 2, example_task 1 2] True (ready_pool 2))
     [WorkerError 0,
      WorkerMessage 1 (MATCHUP_ERROR ''bot0_vs_bot2'' ''failed''),
      WorkerMessage 0 (MATCHUP_COMPLETE ''bot1_vs_bot2'' [example_game])]"
    by code_simp
  have workers: "(0::nat) < 2" and tasks: "[example_task 0 1, example_task 0 2, example_task 1 2] \<noteq> []"
    by simp_all
  from pool_submission_outcomes [OF ready_pool_initialized workers tasks valid,
      THEN conjunct2, THEN conjunct1]
  show ?thesis by simp
qed

text \<open>
  The claim as the specification states it fails: one task whose worker answers
  \<^verbatim>\<open>MATCHUP_ERROR\<close> resolves the promise with the empty list, not with a list of
  length one.
\<close>

theorem pool_submission_outcomes_counterexample:
  "initialize all_complete (new_pool 1) = Inr (ready_pool 1) \<and>
   valid_trace (runTasks [example_task 0 1] True (ready_pool 1))
     [WorkerMessage 0 (MATCHUP_ERROR ''bot0_vs_bot1'' ''failed'')] \<and>
   resolved (run_pool [WorkerMessage 0 (MATCHUP_ERROR ''bot0_vs_bot1'' ''failed'')]
               (runTasks [example_task 0 1] True (ready_pool 1))) = [ [] ] \<and>
   length ([] :: matchup_result list) \<noteq> length [example_task 0 1]"
proof -
  have "valid_trace (runTasks [example_task 0 1] True (ready_pool 1))
     [WorkerMessage 0 (MATCHUP_ERROR ''bot0_vs_bot1'' ''failed'')]"
    by code_simp
  moreover have "resolved (run_pool [WorkerMessage 0 (MATCHUP_ERROR ''bot0_vs_bot1'' ''failed'')]
               (runTasks [example_task 0 1] True (ready_pool 1))) = [ [] ]"
    by code_simp
  ultimately show ?thesis by (simp add: ready_pool_initialized)
qed

lemma processNextTask_keeps_worker:
  assumes "w \<in> set (availableWorkers s)"
  shows "w \<in> set (availableWorkers (processNextTask s)) \<or> w \<in> busyWorkers (processNextTask s)"
proof (cases "availableWorkers s")
  case Nil
  with assms show ?thesis by simp
next
  case (Cons a as)
  with assms show ?thesis by (auto simp: processNextTask_def Let_def)
qed

text \<open>
  Claim C3, as the code has it.  When the \<^verbatim>\<open>error\<close> event of a busy worker fires,
  the pool counts the worker's task as completed without adding an entry to the
  result list, puts the worker back at the end of the available list and goes on
  scheduling: the worker stays available or busy, and it is sent the next queued
  task at once when no other worker is available.  When that task was the last one
  or the queue is empty, the available list afterwards is the old one followed by
  the worker; otherwise the first worker of that list is taken off it, made busy
  and sent the first queued task.  The \<^verbatim>\<open>error\<close> event of a worker that is not busy
  changes nothing.
\<close>

theorem worker_error_requeues_worker:
  "(w \<notin> busyWorkers s \<longrightarrow> handleWorkerError w s = s) \<and>
   (w \<in> busyWorkers s \<longrightarrow>
      results (handleWorkerError w s) = results s \<and>
      completedTasks (handleWorkerError w s) = completedTasks s + 1 \<and>
      (w \<in> set (availableWorkers (handleWorkerError w s)) \<or>
       w \<in> busyWorkers (handleWorkerError w s)) \<and>
      (completedTasks s + 1 < totalTasks s \<and> taskQueue s \<noteq> [] \<and> availableWorkers s = [] \<longrightarrow>
         posted (handleWorkerError w s) = posted s @ [(w, hd (taskQueue s))] \<and>
         w \<in> busyWorkers (handleWorkerError w s)) \<and>
      (totalTasks s \<le> completedTasks s + 1 \<or> taskQueue s = [] \<longrightarrow>
         availableWorkers (handleWorkerError w s) = availableWorkers s @ [w] \<and>
         busyWorkers (handleWorkerError w s) = busyWorkers s - {w} \<and>
         taskQueue (handleWorkerError w s) = taskQueue s \<and>
         posted (handleWorkerError w s) = posted s) \<and>
      (completedTasks s + 1 < totalTasks s \<and> taskQueue s \<noteq> [] \<longrightarrow>
         availableWorkers (handleWorkerError w s) = tl (availableWorkers s @ [w]) \<and>
         busyWorkers (handleWorkerError w s)
           = insert (hd (availableWorkers s @ [w])) (busyWorkers s - {w}) \<and>
         taskQueue (handleWorkerError w s) = tl (taskQueue s) \<and>
         posted (handleWorkerError w s)
           = posted s @ [(hd (availableWorkers s @ [w]), hd (taskQueue s))]))"
proof (intro conjI impI)
  assume "w \<notin> busyWorkers s"
  then show "handleWorkerError w s = s" by (simp add: handleWorkerError_def)
next
  assume w: "w \<in> busyWorkers s"
  define s1 where "s1 = s\<lparr>busyWorkers := busyWorkers s - {w},
             availableWorkers := availableWorkers s @ [w],
             completedTasks := completedTasks s + 1\<rparr>"
  have step: "handleWorkerError w s = processNextTask s1"
    using w by (simp add: handleWorkerError_def s1_def)
  show "results (handleWorkerError w s) = results s"
    by (simp add: step results_processNextTask s1_def)
  show "completedTasks (handleWorkerError w s) = completedTasks s + 1"
    by (simp add: step processNextTask_def Let_def s1_def)
  have "w \<in> set (availableWorkers s1)" by (simp add: s1_def)
  from processNextTask_keeps_worker [OF this]
  show "w \<in> set (availableWorkers (handleWorkerError w s)) \<or>
       w \<in> busyWorkers (handleWorkerError w s)"
    by (simp add: step)
next
  assume w: "w \<in> busyWorkers s"
    and more: "completedTasks s + 1 < totalTasks s \<and> taskQueue s \<noteq> [] \<and> availableWorkers s = []"
  then show "posted (handleWorkerError w s) = posted s @ [(w, hd (taskQueue s))]"
    and "w \<in> busyWorkers (handleWorkerError w s)"
    by (simp_all add: handleWorkerError_def processNextTask_def Let_def)
next
  assume w: "w \<in> busyWorkers s"
    and last: "totalTasks s \<le> completedTasks s + 1 \<or> taskQueue s = []"
  then show "availableWorkers (handleWorkerError w s) = availableWorkers s @ [w]"
    and "busyWorkers (handleWorkerError w s) = busyWorkers s - {w}"
    and "taskQueue (handleWorkerError w s) = taskQueue s"
    and "posted (handleWorkerError w s) = posted s"
    by (auto simp add: handleWorkerError_def processNextTask_def Let_def)
next
  assume w: "w \<in> busyWorkers s"
    and more: "completedTasks s + 1 < totalTasks s \<and> taskQueue s \<noteq> []"
  then show "availableWorkers (handleWorkerError w s) = tl (availableWorkers s @ [w])"
    and "busyWorkers (handleWorkerError w s)
           = insert (hd (availableWorkers s @ [w])) (busyWorkers s - {w})"
    and "taskQueue (handleWorkerError w s) = tl (taskQueue s)"
    and "posted (handleWorkerError w s)
           = posted s @ [(hd (availableWorkers s @ [w]), hd (taskQueue s))]"
    by (simp_all add: handleWorkerError_def processNextTask_def Let_def)
qed

theorem worker_error_requeues_worker_witness:
  "posted (handleWorkerError 0
      (runTasks [example_task 0 1, example_task 0 2, example_task 1 2] True (ready_pool 2)))
    = [(0, example_task 0 1), (1, example_task 0 2), (0, example_task 1 2)] \<and>
   availableWorkers (handleWorkerError 0
      (run_pool [WorkerMessage 1 (MATCHUP_COMPLETE (matchupId (example_task 0 2)) []),
                 WorkerMessage 2 (MATCHUP_COMPLETE (matchupId (example_task 1 2)) [])]
         (runTasks [example_task 0 1, example_task 0 2, example_task 1 2] True (ready_pool 3))))
    = [1, 2, 0]"
proof -
  define s where "s = runTasks [example_task 0 1, example_task 0 2, example_task 1 2] True (ready_pool 2)"
  define t where "t = run_pool [WorkerMessage 1 (MATCHUP_COMPLETE (matchupId (example_task 0 2)) []),
                 WorkerMessage 2 (MATCHUP_COMPLETE (matchupId (example_task 1 2)) [])]
         (runTasks [example_task 0 1, example_task 0 2, example_task 1 2] True (ready_pool 3))"
  have busy: "0 \<in> busyWorkers s"
    and more: "completedTasks s + 1 < totalTasks s \<and> taskQueue s \<noteq> [] \<and> availableWorkers s = []"
    and posted: "posted s = [(0, example_task 0 1), (1, example_task 0 2)]"
    and queue: "hd (taskQueue s) = example_task 1 2"
    unfolding s_def by code_simp+
  have busy_t: "0 \<in> busyWorkers t"
    and last_t: "totalTasks t \<le> completedTasks t + 1 \<or> taskQueue t = []"
    and avail_t: "availableWorkers t = [1, 2]"
    unfolding t_def by code_simp+
  from worker_error_requeues_worker [of 0 s] busy more
  have "posted (handleWorkerError 0 s)
      = [(0, example_task 0 1), (1, example_task 0 2), (0, example_task 1 2)]"
    by (simp add: posted queue)
  moreover from worker_error_requeues_worker [of 0 t] busy_t last_t
  have "availableWorkers (handleWorkerError 0 t) = [1, 2, 0]"
    by (auto simp add: avail_t)
  ultimately show ?thesis unfolding s_def [symmetric] t_def [symmetric] by simp
qed

text \<open>
  The claim as the specification states it fails: with two workers and three tasks,
  the worker whose \<^verbatim>\<open>error\<close> event fired is busy again with the third task and no
  outcome has been recorded; with one worker and one task it is back in the
  available list.
\<close>

theorem worker_error_counterexample:
  "busyWorkers (run_pool [WorkerError 0]
      (runTasks [example_task 0 1, example_task 0 2, example_task 1 2] True (ready_pool 2))) = {0, 1} \<and>
   posted (run_pool [WorkerError 0]
      (runTasks [example_task 0 1, example_task 0 2, example_task 1 2] True (ready_pool 2)))
    = [(0, example_task 0 1), (1, example_task 0 2), (0, example_task 1 2)] \<and>
   results (run_pool [WorkerError 0]
      (runTasks [example_task 0 1, example_task 0 2, example_task 1 2] True (ready_pool 2))) = [] \<and>
   availableWorkers (run_pool [WorkerError 0]
      (runTasks [example_task 0 1] True (ready_pool 1))) = [0]"
  by code_simp

section \<open>Proofs: the arena worker\<close>

lemma run_games_calls:
  assumes "run_games engine data gameNum w allResults out calls = (r, w', out', calls')"
  shows "\<exists>m. calls' = calls @
           replicate m (bot1 data, bot2 data, task.bot1Index data, task.bot2Index data, 1)"
  using assms
proof (induction engine data gameNum w allResults out calls rule: run_games.induct)
  case (1 engine data gameNum w allResults out calls)
  let ?call = "(bot1 data, bot2 data, task.bot1Index data, task.bot2Index data, 1::nat)"
  show ?case
  proof (cases "gameNum < gamesPerMatchup data")
    case False
    with "1.prems" have "calls' = calls"
      by (subst (asm) run_games.simps) simp
    then show ?thesis by (intro exI [of _ 0]) simp
  next
    case True
    obtain res w1 where eng: "engine w ?call = (res, w1)" by (cases "engine w ?call")
    show ?thesis
    proof (cases res)
      case (Inl err)
      with "1.prems" True eng have "calls' = calls @ [?call]"
        by (subst (asm) run_games.simps) (simp add: Let_def)
      then show ?thesis by (intro exI [of _ 1]) simp
    next
      case (Inr g)
      with "1.prems" True eng
      have "run_games engine data (gameNum + 1) w1 (allResults @ [g])
              (out @ [GAME_COMPLETE (matchupId data) g]) (calls @ [?call]) = (r, w', out', calls')"
        by (subst (asm) run_games.simps) (simp add: Let_def)
      from "1.IH" [OF True refl refl eng [symmetric] Inr this]
      obtain m where "calls' = (calls @ [?call]) @ replicate m ?call" by blast
      then have "calls' = calls @ replicate (Suc m) ?call" by simp
      then show ?thesis by blast
    qed
  qed
qed

text \<open>
  Every call the \<^verbatim>\<open>RUN_MATCHUP\<close> handler makes to the engine has the same arguments,
  whatever the engine, the task and the index of the game.
\<close>

lemma run_matchup_calls_alike:
  "\<exists>m. snd (snd (run_matchup engine data arenaWrapper)) =
         replicate m (bot1 data, bot2 data, task.bot1Index data, task.bot2Index data, 1)"
proof (cases arenaWrapper)
  case None
  then show ?thesis by (simp add: run_matchup_def)
next
  case (Some w)
  obtain r w' out calls where run: "run_games engine data 0 w [] [] [] = (r, w', out, calls)"
    by (cases "run_games engine data 0 w [] [] []") auto
  from run_games_calls [OF run] obtain m where
    "calls = replicate m (bot1 data, bot2 data, task.bot1Index data, task.bot2Index data, 1)"
    by auto
  then show ?thesis
    by (cases r) (auto simp: run_matchup_def Some run)
qed

text \<open>
  Claim C9 says that within a matchup of \<open>K\<close> games the competitor who moves first
  alternates, competitor \<open>i\<close> moving first in the games of even index.  The handler
  computes \<^verbatim>\<open>startingPlayer = gameNum % 2\<close> and passes it to nothing: for a matchup of
  two games it asks the engine twice for one game with the very same arguments, so
  the index of the game reaches no one who could let it decide the first move.
\<close>

theorem run_matchup_two_games:
  "gamesPerMatchup (example_task 0 1) = 2 \<and>
   run_matchup (constant_engine example_game) (example_task 0 1) (Some ()) =
     ([GAME_COMPLETE ''bot0_vs_bot1'' example_game,
       GAME_COMPLETE ''bot0_vs_bot1'' example_game,
       MATCHUP_COMPLETE ''bot0_vs_bot1'' [example_game, example_game]],
      Some (),
      [(example_config, example_config, 0, 1, 1), (example_config, example_config, 0, 1, 1)])"
  by (simp add: run_matchup_def run_games.simps constant_engine_def example_task_def make_task_def
      string_of_nat.simps digit_char_def Let_def)

section \<open>Proofs: the AI worker proxy\<close>

lemma digit_char_inj:
  assumes "d < 10" "e < 10" "digit_char d = digit_char e"
  shows "d = e"
proof -
  have "distinct ''0123456789''" by simp
  moreover have "d < length ''0123456789''" "e < length ''0123456789''"
    using assms by simp_all
  ultimately show ?thesis
    using assms(3) unfolding digit_char_def by (simp only: nth_eq_iff_index_eq)
qed

lemma string_of_nat_nonempty: "string_of_nat n \<noteq> []"
  by (subst string_of_nat.simps) simp

lemma string_of_nat_small: "n < 10 \<Longrightarrow> string_of_nat n = [digit_char n]"
  by (subst string_of_nat.simps) simp

lemma string_of_nat_large:
  "\<not> n < 10 \<Longrightarrow> string_of_nat n = string_of_nat (n div 10) @ [digit_char (n mod 10)]"
  by (subst string_of_nat.simps) simp

lemma string_of_nat_inj: "string_of_nat m = string_of_nat n \<Longrightarrow> m = n"
proof (induction m arbitrary: n rule: string_of_nat.induct)
  case (1 m)
  show ?case
  proof (cases "m < 10")
    case small_m: True
    show ?thesis
    proof (cases "n < 10")
      case True
      with small_m "1.prems" show ?thesis
        by (simp add: string_of_nat_small digit_char_inj)
    next
      case False
      with small_m "1.prems" have "string_of_nat (n div 10) = []"
        by (simp add: string_of_nat_small string_of_nat_large Cons_eq_append_conv)
      then show ?thesis by (simp add: string_of_nat_nonempty)
    qed
  next
    case large_m: False
    show ?thesis
    proof (cases "n < 10")
      case True
      with large_m "1.prems" have "string_of_nat (m div 10) = []"
        by (simp add: string_of_nat_small string_of_nat_large append_eq_Cons_conv)
      then show ?thesis by (simp add: string_of_nat_nonempty)
    next
      case False
      with large_m "1.prems" have eq: "string_of_nat (m div 10) = string_of_nat (n div 10)"
        and dig: "digit_char (m mod 10) = digit_char (n mod 10)"
        by (simp_all add: string_of_nat_large)
      from "1.IH" [OF large_m eq] have "m div 10 = n div 10" .
      moreover from dig have "m mod 10 = n mod 10"
        by (intro digit_char_inj) simp_all
      ultimately show ?thesis by (metis div_mult_mod_eq)
    qed
  qed
qed

lemma request_id_inj: "request_id m = request_id n \<Longrightarrow> m = n"
  by (simp add: request_id_def string_of_nat_inj)

lemma set_map_set: "set (map_set k v m) \<subseteq> insert (k, v) (set m)"
  by (induction m) auto

lemma map_get_None: "list_all (\<lambda>p. fst p \<noteq> k) m \<Longrightarrow> map_get m k = None"
  by (auto simp: map_get_def map_of_eq_None_iff list_all_iff)

lemma map_get_SomeD: "map_get m k = Some v \<Longrightarrow> (k, v) \<in> set m"
  by (simp add: map_get_def map_of_SomeD)

lemma map_of_filter_other:
  "h \<noteq> h' \<Longrightarrow> map_of (filter (\<lambda>t. fst t \<noteq> h') ts) h = map_of ts h"
  by (induction ts) auto

lemma settlements_since_append:
  assumes "k \<le> length (settled s)" and "settled s' = settled s @ [(i, x)]"
  shows "settlements_since k rid s' =
           settlements_since k rid s @ (if i = rid then [(i, x)] else [])"
  using assms by (simp add: settlements_since_def)

lemma settlements_since_cong:
  "settled s' = settled s \<Longrightarrow> settlements_since k rid s' = settlements_since k rid s"
  by (simp add: settlements_since_def)

lemma getAIAction_worker:
  assumes "isReady s" "useWorker s" "worker s"
  shows "getAIAction gameState playerId s =
     (RequestPromise (request_id (requestIdCounter s)),
      s\<lparr>requestIdCounter := requestIdCounter s + 1,
        timers := timers s @ [(nextTimer s, request_id (requestIdCounter s), now s + 30000)],
        nextTimer := nextTimer s + 1,
        pendingRequests := map_set (request_id (requestIdCounter s)) (nextTimer s) (pendingRequests s),
        sent := sent s @ [COMPUTE_AI_ACTION (request_id (requestIdCounter s)) gameState playerId
                            (difficulty s) (proxy.timeLimit s)]\<rparr>)"
  using assms by (simp add: getAIAction_def setTimeout_def Let_def)

lemma issued_not_next: "issued s rid \<Longrightarrow> rid \<noteq> request_id (requestIdCounter s)"
  by (auto simp: issued_def dest: request_id_inj)

lemma getAIAction_waiting:
  assumes wf: "proxy_wf s" and ready: "isReady s" "useWorker s" "worker s"
  shows "waiting (requestIdCounter s) (length (settled s)) (nextTimer s)
           (request_id (requestIdCounter s)) (now s + 30000)
           (snd (getAIAction gameState playerId s))"
proof -
  let ?rid = "request_id (requestIdCounter s)"
  from wf have timers: "\<And>t. t \<in> set (timers s) \<Longrightarrow> fst t < nextTimer s \<and> fst (snd t) \<noteq> ?rid"
    and pend: "\<And>p. p \<in> set (pendingRequests s) \<Longrightarrow> snd p < nextTimer s"
    by (auto simp: proxy_wf_def list_all_iff dest: issued_not_next)
  have none: "map_of (timers s) (nextTimer s) = None"
    using timers by (force simp: map_of_eq_None_iff)
  have "list_all (\<lambda>p. snd p = nextTimer s \<longrightarrow> fst p = ?rid)
          (map_set ?rid (nextTimer s) (pendingRequests s))"
    using pend set_map_set [of ?rid "nextTimer s" "pendingRequests s"]
    by (fastforce simp: list_all_iff)
  moreover have "list_all (\<lambda>t. fst (snd t) = ?rid \<longrightarrow> fst t = nextTimer s) (timers s)"
    using timers by (auto simp: list_all_iff)
  ultimately show ?thesis
    using none by (simp add: getAIAction_worker [OF ready] waiting_def settlements_since_def map_add_def)
qed

lemma waiting_getAIActionD:
  assumes w: "waiting c0 k h (request_id c0) due s"
  shows "waiting c0 k h (request_id c0) due (snd (getAIAction gameState playerId s))"
proof (cases "isReady s \<and> useWorker s")
  case False
  with w show ?thesis by (auto simp: getAIAction_def)
next
  case True
  let ?new = "request_id (requestIdCounter s)"
  let ?s1 = "s\<lparr>requestIdCounter := requestIdCounter s + 1,
               timers := timers s @ [(nextTimer s, ?new, now s + 30000)],
               nextTimer := nextTimer s + 1,
               pendingRequests := map_set ?new (nextTimer s) (pendingRequests s)\<rparr>"
  from w have c: "c0 < requestIdCounter s" and h: "h < nextTimer s"
    and k: "k \<le> length (settled s)" and armed: "map_of (timers s) h = Some (request_id c0, due)"
    and only: "list_all (\<lambda>t. fst (snd t) = request_id c0 \<longrightarrow> fst t = h) (timers s)"
    and pend: "list_all (\<lambda>p. snd p = h \<longrightarrow> fst p = request_id c0) (pendingRequests s)"
    and unsettled: "settlements_since k (request_id c0) s = []"
    by (simp_all add: waiting_def)
  from c have new: "?new \<noteq> request_id c0"
    by (auto dest: request_id_inj)
  have pend': "list_all (\<lambda>p. snd p = h \<longrightarrow> fst p = request_id c0)
                 (map_set ?new (nextTimer s) (pendingRequests s))"
    using pend h set_map_set [of ?new "nextTimer s" "pendingRequests s"]
    by (fastforce simp: list_all_iff)
  have w1: "waiting c0 k h (request_id c0) due ?s1"
    using c h k armed only new pend' unsettled
    by (simp add: waiting_def settlements_since_def map_add_def)
  have "snd (getAIAction gameState playerId s) = ?s1 \<or>
        snd (getAIAction gameState playerId s) =
          ?s1\<lparr>sent := sent s @ [COMPUTE_AI_ACTION ?new gameState playerId
                                  (difficulty s) (proxy.timeLimit s)]\<rparr>"
    using True by (simp add: getAIAction_def setTimeout_def Let_def)
  then show ?thesis
  proof
    assume "snd (getAIAction gameState playerId s) = ?s1"
    with w1 show ?thesis by simp
  next
    assume eq: "snd (getAIAction gameState playerId s) =
          ?s1\<lparr>sent := sent s @ [COMPUTE_AI_ACTION ?new gameState playerId
                                  (difficulty s) (proxy.timeLimit s)]\<rparr>"
    from w1 show ?thesis unfolding eq
      by (simp add: waiting_def settlements_since_def)
  qed
qed

lemma waiting_settle_other:
  assumes w: "waiting c0 k h rid due s"
    and get: "map_get (pendingRequests s) i = Some timeout" and i: "i \<noteq> rid"
  shows "waiting c0 k h rid due
           ((clearTimeout timeout s)\<lparr>pendingRequests := map_delete i (pendingRequests s),
              settled := settled s @ [(i, x)]\<rparr>)"
proof -
  from w have pend: "list_all (\<lambda>p. snd p = h \<longrightarrow> fst p = rid) (pendingRequests s)"
    by (simp add: waiting_def)
  from map_get_SomeD [OF get] pend i have "timeout \<noteq> h"
    by (auto simp: list_all_iff)
  with w i show ?thesis
    by (auto simp: waiting_def clearTimeout_def map_delete_def settlements_since_def
        map_of_filter_other list_all_iff)
qed

lemma waiting_handleMessage:
  assumes w: "waiting c0 k h rid due s" and quiet: "\<not> answers rid (Message m)"
  shows "waiting c0 k h rid due (handleMessage m s)"
proof (cases m)
  case (AI_ACTION_RESULT i action)
  with quiet have i: "i \<noteq> rid" by simp
  show ?thesis
  proof (cases "map_get (pendingRequests s) i")
    case None
    with w show ?thesis by (simp add: AI_ACTION_RESULT handleActionResult_def)
  next
    case (Some timeout)
    from waiting_settle_other [OF w Some i, of "Resolved action"]
    show ?thesis by (simp add: AI_ACTION_RESULT handleActionResult_def Some Let_def clearTimeout_def)
  qed
next
  case (AI_ERROR i err)
  with quiet have i: "i \<noteq> rid" by simp
  show ?thesis
  proof (cases "map_get (pendingRequests s) i")
    case None
    with w show ?thesis by (simp add: AI_ERROR handleActionError_def)
  next
    case (Some timeout)
    from waiting_settle_other [OF w Some i, of "Rejected (Error err)"]
    show ?thesis by (simp add: AI_ERROR handleActionError_def Some Let_def clearTimeout_def)
  qed
qed (use w in simp_all)

lemma waiting_timer_other:
  assumes w: "waiting c0 k h rid due s" and other: "h' \<noteq> h"
  shows "waiting c0 k h rid due (timer_fires h' s)"
proof (cases "map_of (timers s) h'")
  case None
  with w show ?thesis by (simp add: timer_fires_def)
next
  case (Some entry)
  obtain i due' where entry: "entry = (i, due')" by (cases entry)
  from w have only: "list_all (\<lambda>t. fst (snd t) = rid \<longrightarrow> fst t = h) (timers s)"
    by (simp add: waiting_def)
  from map_of_SomeD [OF Some] only other have i: "i \<noteq> rid"
    by (auto simp: list_all_iff entry)
  show ?thesis
  proof (cases "now s < due'")
    case True
    with w show ?thesis by (simp add: timer_fires_def Some entry)
  next
    case False
    with w i other show ?thesis
      by (auto simp: timer_fires_def Some entry Let_def waiting_def map_delete_def
          settlements_since_def map_of_filter_other list_all_iff)
  qed
qed

lemma waiting_step:
  assumes w: "waiting c0 k h (request_id c0) due s"
    and quiet: "\<not> answers (request_id c0) e" and other: "e \<noteq> TimerFires h"
  shows "waiting c0 k h (request_id c0) due (proxy_step e s)"
proof (cases e)
  case (GetAIAction gameState playerId)
  with waiting_getAIActionD [OF w] show ?thesis by simp
next
  case (Message m)
  with waiting_handleMessage [OF w] quiet show ?thesis by simp
next
  case WorkerCrash
  with quiet show ?thesis by simp
next
  case (TimerFires h')
  with waiting_timer_other [OF w, of h'] other show ?thesis by simp
next
  case Terminate
  with w show ?thesis
    by (simp add: terminate_def Let_def waiting_def settlements_since_def)
next
  case (SetDifficulty d)
  with w show ?thesis
    by (simp add: setDifficulty_def Let_def waiting_def settlements_since_def)
next
  case (SetTimeLimit t)
  with w show ?thesis
    by (simp add: setTimeLimit_def Let_def waiting_def settlements_since_def)
next
  case (SetDebugMode b)
  with w show ?thesis
    by (simp add: setDebugMode_def Let_def waiting_def settlements_since_def)
next
  case (Advance d)
  with w show ?thesis
    by (simp add: waiting_def settlements_since_def)
qed

lemma waiting_run:
  assumes "waiting c0 k h (request_id c0) due s"
    and "list_all (\<lambda>e. \<not> answers (request_id c0) e \<and> e \<noteq> TimerFires h) evs"
  shows "waiting c0 k h (request_id c0) due (run_proxy evs s)"
  using assms
proof (induction evs arbitrary: s)
  case Nil
  then show ?case by (simp add: run_proxy_def)
next
  case (Cons e evs)
  from Cons.prems have "waiting c0 k h (request_id c0) due (proxy_step e s)"
    by (intro waiting_step) simp_all
  from Cons.IH [OF this] Cons.prems(2) show ?case
    by (simp add: run_proxy_def)
qed

lemma waiting_fires:
  assumes w: "waiting c0 k h rid due s" and due: "due \<le> now s"
  shows "expired c0 k rid (timer_fires h s) \<and>
         settlements_since k rid (timer_fires h s) =
           [(rid, Rejected (Error ''AI computation timeout''))]"
proof -
  from w have armed: "map_of (timers s) h = Some (rid, due)"
    and only: "list_all (\<lambda>t. fst (snd t) = rid \<longrightarrow> fst t = h) (timers s)"
    and k: "k \<le> length (settled s)"
    and unsettled: "settlements_since k rid s = []"
    and c: "c0 < requestIdCounter s"
    by (simp_all add: waiting_def)
  have step: "timer_fires h s =
      s\<lparr>timers := filter (\<lambda>t. fst t \<noteq> h) (timers s),
        pendingRequests := map_delete rid (pendingRequests s),
        settled := settled s @ [(rid, Rejected (Error ''AI computation timeout''))]\<rparr>"
    using due by (simp add: timer_fires_def armed Let_def)
  have "list_all (\<lambda>t. fst (snd t) \<noteq> rid) (filter (\<lambda>t. fst t \<noteq> h) (timers s))"
    using only by (auto simp: list_all_iff)
  moreover have "list_all (\<lambda>p. fst p \<noteq> rid) (map_delete rid (pendingRequests s))"
    by (simp add: map_delete_def list_all_iff)
  ultimately show ?thesis
    unfolding step using c k unsettled
    by (simp add: expired_def settlements_since_def)
qed

lemma waiting_early:
  assumes w: "waiting c0 k h rid due s" and early: "now s < due"
  shows "timer_fires h s = s"
  using assms by (simp add: waiting_def timer_fires_def)

lemma expired_reject_all:
  assumes "list_all (\<lambda>p. fst p \<noteq> rid) ps" and "k \<le> length (settled s)"
    and "list_all (\<lambda>t. fst (snd t) \<noteq> rid) (timers s)"
  shows "settlements_since k rid (reject_all ps s) = settlements_since k rid s \<and>
         k \<le> length (settled (reject_all ps s)) \<and>
         list_all (\<lambda>t. fst (snd t) \<noteq> rid) (timers (reject_all ps s)) \<and>
         requestIdCounter (reject_all ps s) = requestIdCounter s \<and>
         pendingRequests (reject_all ps s) = pendingRequests s \<and>
         worker (reject_all ps s) = worker s"
  using assms
proof (induction ps arbitrary: s)
  case Nil
  then show ?case by simp
next
  case (Cons p ps)
  obtain i timeout where p: "p = (i, timeout)" by (cases p)
  let ?s = "(clearTimeout timeout s)\<lparr>settled := settled s @ [(i, Rejected (Error ''Worker crashed''))]\<rparr>"
  from Cons.prems p have i: "i \<noteq> rid" and rest: "list_all (\<lambda>p. fst p \<noteq> rid) ps" by simp_all
  have a: "k \<le> length (settled ?s)" using Cons.prems(2) by simp
  have b: "list_all (\<lambda>t. fst (snd t) \<noteq> rid) (timers ?s)"
    using Cons.prems(3) by (auto simp: clearTimeout_def list_all_iff)
  have c: "settlements_since k rid ?s = settlements_since k rid s"
    using i Cons.prems(2) by (simp add: settlements_since_def)
  from Cons.IH [OF rest a b] c show ?case
    by (simp add: p clearTimeout_def)
qed

lemma expired_step:
  assumes x: "expired c0 k (request_id c0) s"
  shows "expired c0 k (request_id c0) (proxy_step e s) \<and>
         settlements_since k (request_id c0) (proxy_step e s) =
           settlements_since k (request_id c0) s"
proof -
  let ?rid = "request_id c0"
  from x have c: "c0 < requestIdCounter s" and k: "k \<le> length (settled s)"
    and tim: "list_all (\<lambda>t. fst (snd t) \<noteq> ?rid) (timers s)"
    and pend: "list_all (\<lambda>p. fst p \<noteq> ?rid) (pendingRequests s)"
    by (simp_all add: expired_def)
  have settle: "expired c0 k ?rid
           ((clearTimeout timeout s)\<lparr>pendingRequests := map_delete i (pendingRequests s),
              settled := settled s @ [(i, y)]\<rparr>) \<and>
        settlements_since k ?rid
           ((clearTimeout timeout s)\<lparr>pendingRequests := map_delete i (pendingRequests s),
              settled := settled s @ [(i, y)]\<rparr>) = settlements_since k ?rid s"
    if "map_get (pendingRequests s) i = Some timeout" for i timeout y
  proof -
    from map_get_SomeD [OF that] pend have "i \<noteq> ?rid"
      by (auto simp: list_all_iff)
    with x show ?thesis
      by (auto simp: expired_def clearTimeout_def map_delete_def settlements_since_def
          list_all_iff)
  qed
  show ?thesis
  proof (cases e)
    case (GetAIAction gameState playerId)
    let ?new = "request_id (requestIdCounter s)"
    from c have new: "?new \<noteq> ?rid" by (auto dest: request_id_inj)
    have "list_all (\<lambda>p. fst p \<noteq> ?rid) (map_set ?new (nextTimer s) (pendingRequests s))"
      using pend new set_map_set [of ?new "nextTimer s" "pendingRequests s"]
      by (fastforce simp: list_all_iff)
    with x new show ?thesis
      by (auto simp: GetAIAction getAIAction_def setTimeout_def Let_def expired_def
          settlements_since_def)
  next
    case (Message m)
    show ?thesis
    proof (cases m)
      case (AI_ACTION_RESULT i action)
      show ?thesis
      proof (cases "map_get (pendingRequests s) i")
        case None
        with x show ?thesis by (simp add: Message AI_ACTION_RESULT handleActionResult_def)
      next
        case (Some timeout)
        from settle [OF Some, of "Resolved action"] show ?thesis
          by (simp add: Message AI_ACTION_RESULT handleActionResult_def Some Let_def
              clearTimeout_def)
      qed
    next
      case (AI_ERROR i err)
      show ?thesis
      proof (cases "map_get (pendingRequests s) i")
        case None
        with x show ?thesis by (simp add: Message AI_ERROR handleActionError_def)
      next
        case (Some timeout)
        from settle [OF Some, of "Rejected (Error err)"] show ?thesis
          by (simp add: Message AI_ERROR handleActionError_def Some Let_def clearTimeout_def)
      qed
    qed (use x Message in simp_all)
  next
    case WorkerCrash
    from expired_reject_all [OF pend k tim] c show ?thesis
      by (simp add: WorkerCrash handleError_def restart_def Let_def terminate_def expired_def
          settlements_since_def)
  next
    case (TimerFires h')
    show ?thesis
    proof (cases "map_of (timers s) h'")
      case None
      with x show ?thesis by (simp add: TimerFires timer_fires_def)
    next
      case (Some entry)
      obtain i due' where entry: "entry = (i, due')" by (cases entry)
      from map_of_SomeD [OF Some] tim have i: "i \<noteq> ?rid"
        by (auto simp: list_all_iff entry)
      with x show ?thesis
        by (auto simp: TimerFires timer_fires_def Some entry Let_def expired_def map_delete_def
            settlements_since_def list_all_iff)
    qed
  next
    case Terminate
    with x show ?thesis
      by (simp add: terminate_def Let_def expired_def settlements_since_def)
  next
    case (SetDifficulty d)
    with x show ?thesis
      by (simp add: setDifficulty_def Let_def expired_def settlements_since_def)
  next
    case (SetTimeLimit t)
    with x show ?thesis
      by (simp add: setTimeLimit_def Let_def expired_def settlements_since_def)
  next
    case (SetDebugMode b)
    with x show ?thesis
      by (simp add: setDebugMode_def Let_def expired_def settlements_since_def)
  next
    case (Advance d)
    with x show ?thesis
      by (simp add: expired_def settlements_since_def)
  qed
qed

lemma expired_run:
  assumes "expired c0 k (request_id c0) s"
  shows "expired c0 k (request_id c0) (run_proxy evs s) \<and>
         settlements_since k (request_id c0) (run_proxy evs s) =
           settlements_since k (request_id c0) s"
  using assms
proof (induction evs arbitrary: s)
  case Nil
  then show ?case by (simp add: run_proxy_def)
next
  case (Cons e evs)
  from expired_step [OF Cons.prems, of e] Cons.IH [of "proxy_step e s"]
  show ?case by (simp add: run_proxy_def)
qed

lemma expired_late_reply:
  assumes "expired c0 k rid s"
  shows "handleMessage (AI_ACTION_RESULT rid action) s = s"
    and "handleMessage (AI_ERROR rid err) s = s"
    and "map_get (pendingRequests s) rid = None"
  using assms
  by (simp_all add: expired_def handleActionResult_def handleActionError_def map_get_None)

lemma ready_proxy_initialized:
  "initialize_proxy ''wasm/splendor.js'' True moduleAvailable (new_proxy True) = Inr ready_proxy"
  by (simp add: initialize_proxy_def new_proxy_def ready_proxy_def Let_def)

lemmas proxy_eval = run_proxy_def getAIAction_def setTimeout_def clearTimeout_def
  timer_fires_def handleActionResult_def handleActionError_def terminate_def handleError_def restart_def
  ready_proxy_def new_proxy_def request_id_def string_of_nat.simps digit_char_def map_get_def
  map_delete_def Let_def proxy_wf_def issued_def settlements_since_def

lemma issued_Suc: "issued s rid \<Longrightarrow> requestIdCounter s' = requestIdCounter s + 1 \<Longrightarrow> issued s' rid"
  by (auto simp: issued_def)

lemma issued_new: "requestIdCounter s' = requestIdCounter s + 1 \<Longrightarrow> issued s' (request_id (requestIdCounter s))"
  by (auto simp: issued_def)

lemma issued_cong: "requestIdCounter s' = requestIdCounter s \<Longrightarrow> issued s' = issued s"
  by (auto simp: issued_def fun_eq_iff)

lemma proxy_wf_subset:
  assumes "proxy_wf s"
    and "set (timers s') \<subseteq> set (timers s)" "set (pendingRequests s') \<subseteq> set (pendingRequests s)"
    and "nextTimer s' = nextTimer s" "requestIdCounter s' = requestIdCounter s"
  shows "proxy_wf s'"
  using assms unfolding proxy_wf_def list_all_iff issued_cong [OF assms(5)] by auto

lemma reject_all_fields:
  "set (timers (reject_all ps s)) \<subseteq> set (timers s) \<and>
   pendingRequests (reject_all ps s) = pendingRequests s \<and>
   nextTimer (reject_all ps s) = nextTimer s \<and>
   requestIdCounter (reject_all ps s) = requestIdCounter s"
proof (induction ps arbitrary: s)
  case Nil
  show ?case by simp
next
  case (Cons p ps)
  obtain i timeout where p: "p = (i, timeout)" by (cases p)
  from Cons [of "(clearTimeout timeout s)\<lparr>settled := settled s @ [(i, Rejected (Error ''Worker crashed''))]\<rparr>"]
  show ?case by (auto simp: p clearTimeout_def)
qed

lemma proxy_wf_getAIAction:
  assumes wf: "proxy_wf s"
  shows "proxy_wf (snd (getAIAction gameState playerId s))"
proof (cases "isReady s \<and> useWorker s")
  case False
  with wf show ?thesis by (auto simp: getAIAction_def)
next
  case True
  let ?new = "request_id (requestIdCounter s)"
  let ?s1 = "s\<lparr>requestIdCounter := requestIdCounter s + 1,
               timers := timers s @ [(nextTimer s, ?new, now s + 30000)],
               nextTimer := nextTimer s + 1,
               pendingRequests := map_set ?new (nextTimer s) (pendingRequests s)\<rparr>"
  have iss: "issued ?s1 rid" if "issued s rid" for rid
    using that by (rule issued_Suc) simp
  have new: "issued ?s1 ?new"
    by (rule issued_new) simp
  have wf1: "proxy_wf ?s1"
    unfolding proxy_wf_def list_all_iff
  proof (rule conjI; rule ballI)
    fix t assume "t \<in> set (timers ?s1)"
    then have "t \<in> set (timers s) \<or> t = (nextTimer s, ?new, now s + 30000)" by auto
    then show "fst t < nextTimer ?s1 \<and> issued ?s1 (fst (snd t))"
      using wf iss new by (auto simp: proxy_wf_def list_all_iff)
  next
    fix p assume "p \<in> set (pendingRequests ?s1)"
    then have "p \<in> set (pendingRequests s) \<or> p = (?new, nextTimer s)"
      using set_map_set [of ?new "nextTimer s" "pendingRequests s"] by auto
    then show "snd p < nextTimer ?s1 \<and> issued ?s1 (fst p)"
      using wf iss new by (auto simp: proxy_wf_def list_all_iff)
  qed
  have "snd (getAIAction gameState playerId s) = ?s1 \<or>
        snd (getAIAction gameState playerId s) =
          ?s1\<lparr>sent := sent s @ [COMPUTE_AI_ACTION ?new gameState playerId
                                  (difficulty s) (proxy.timeLimit s)]\<rparr>"
    using True by (simp add: getAIAction_def setTimeout_def Let_def)
  then show ?thesis
  proof
    assume "snd (getAIAction gameState playerId s) = ?s1"
    with wf1 show ?thesis by simp
  next
    assume eq: "snd (getAIAction gameState playerId s) =
          ?s1\<lparr>sent := sent s @ [COMPUTE_AI_ACTION ?new gameState playerId
                                  (difficulty s) (proxy.timeLimit s)]\<rparr>"
    show ?thesis unfolding eq by (rule proxy_wf_subset [OF wf1]) simp_all
  qed
qed

lemma proxy_wf_step:
  assumes wf: "proxy_wf s"
  shows "proxy_wf (proxy_step e s)"
proof (cases e)
  case (GetAIAction gameState playerId)
  with proxy_wf_getAIAction [OF wf] show ?thesis by simp
next
  case (Message m)
  have "proxy_wf (handleMessage m s)"
  proof (cases m)
    case (AI_ACTION_RESULT i action)
    show ?thesis
      by (rule proxy_wf_subset [OF wf])
        (auto simp: AI_ACTION_RESULT handleActionResult_def clearTimeout_def map_delete_def Let_def
          split: option.splits)
  next
    case (AI_ERROR i err)
    show ?thesis
      by (rule proxy_wf_subset [OF wf])
        (auto simp: AI_ERROR handleActionError_def clearTimeout_def map_delete_def Let_def
          split: option.splits)
  qed (use wf in simp_all)
  then show ?thesis by (simp add: Message)
next
  case WorkerCrash
  show ?thesis
    using reject_all_fields [of "pendingRequests s" s]
    by (intro proxy_wf_subset [OF wf])
      (auto simp: WorkerCrash handleError_def restart_def terminate_def Let_def)
next
  case (TimerFires h)
  show ?thesis
    by (rule proxy_wf_subset [OF wf])
      (auto simp: TimerFires timer_fires_def map_delete_def Let_def split: option.splits)
next
  case Terminate
  show ?thesis
    by (rule proxy_wf_subset [OF wf]) (auto simp: Terminate terminate_def Let_def)
next
  case (SetDifficulty d)
  show ?thesis
    by (rule proxy_wf_subset [OF wf]) (auto simp: SetDifficulty setDifficulty_def Let_def)
next
  case (SetTimeLimit t)
  show ?thesis
    by (rule proxy_wf_subset [OF wf]) (auto simp: SetTimeLimit setTimeLimit_def Let_def)
next
  case (SetDebugMode b)
  show ?thesis
    by (rule proxy_wf_subset [OF wf]) (auto simp: SetDebugMode setDebugMode_def Let_def)
next
  case (Advance d)
  show ?thesis
    by (rule proxy_wf_subset [OF wf]) (auto simp: Advance)
qed

lemma proxy_wf_new: "proxy_wf (new_proxy haveWorkers)"
  by (simp add: proxy_wf_def new_proxy_def)

lemma proxy_wf_run: "proxy_wf s \<Longrightarrow> proxy_wf (run_proxy evs s)"
  unfolding run_proxy_def
  by (induction evs arbitrary: s) (simp_all add: proxy_wf_step)

text \<open>
  Claim C4, as the code has it.  Take a well-formed, ready proxy that uses its
  worker, and a request issued by \<^verbatim>\<open>getAIAction\<close>.  Whatever happens before the
  callback of the request's timer runs (other requests, answers to other requests,
  other timers, calls of \<^verbatim>\<open>terminate\<close> and of the setters, time passing), as long as
  no message replies to this request and the worker does not crash, the request
  stays unsettled and its timer stays armed, due 30000 ms after the call.  The
  callback does nothing before that time.  When it runs at or after that time, the
  request is rejected with the timeout error, it is rejected only once whatever
  happens afterwards, the table of pending requests no longer contains its id, and a
  later \<^verbatim>\<open>AI_ACTION_RESULT\<close> or \<^verbatim>\<open>AI_ERROR\<close> for this id leaves the proxy unchanged.
\<close>

theorem request_timeout:
  assumes "proxy_wf s" and "isReady s" and "useWorker s" and "worker s"
    and "list_all (\<lambda>e. \<not> answers (request_id (requestIdCounter s)) e \<and>
                      e \<noteq> TimerFires (nextTimer s)) pre"
  shows "fst (getAIAction gameState playerId s) = RequestPromise (request_id (requestIdCounter s)) \<and>
    settlements_since (length (settled s)) (request_id (requestIdCounter s))
      (run_proxy pre (snd (getAIAction gameState playerId s))) = [] \<and>
    map_of (timers (run_proxy pre (snd (getAIAction gameState playerId s)))) (nextTimer s)
      = Some (request_id (requestIdCounter s), now s + 30000) \<and>
    (now (run_proxy pre (snd (getAIAction gameState playerId s))) < now s + 30000 \<longrightarrow>
       timer_fires (nextTimer s) (run_proxy pre (snd (getAIAction gameState playerId s)))
         = run_proxy pre (snd (getAIAction gameState playerId s))) \<and>
    (now s + 30000 \<le> now (run_proxy pre (snd (getAIAction gameState playerId s))) \<longrightarrow>
       settlements_since (length (settled s)) (request_id (requestIdCounter s))
         (run_proxy post
            (timer_fires (nextTimer s) (run_proxy pre (snd (getAIAction gameState playerId s)))))
         = [(request_id (requestIdCounter s), Rejected (Error ''AI computation timeout''))] \<and>
       map_get
         (pendingRequests
            (run_proxy post
               (timer_fires (nextTimer s) (run_proxy pre (snd (getAIAction gameState playerId s))))))
         (request_id (requestIdCounter s)) = None \<and>
       handleMessage (AI_ACTION_RESULT (request_id (requestIdCounter s)) action)
         (run_proxy post
            (timer_fires (nextTimer s) (run_proxy pre (snd (getAIAction gameState playerId s)))))
         = run_proxy post
            (timer_fires (nextTimer s) (run_proxy pre (snd (getAIAction gameState playerId s)))) \<and>
       handleMessage (AI_ERROR (request_id (requestIdCounter s)) err)
         (run_proxy post
            (timer_fires (nextTimer s) (run_proxy pre (snd (getAIAction gameState playerId s)))))
         = run_proxy post
            (timer_fires (nextTimer s) (run_proxy pre (snd (getAIAction gameState playerId s)))))"
proof -
  define c0 where "c0 = requestIdCounter s"
  define k where "k = length (settled s)"
  define h where "h = nextTimer s"
  define due where "due = now s + 30000"
  define s2 where "s2 = run_proxy pre (snd (getAIAction gameState playerId s))"
  define s4 where "s4 = run_proxy post (timer_fires h s2)"
  have call: "fst (getAIAction gameState playerId s) = RequestPromise (request_id c0)"
    using assms(2-4) by (simp add: getAIAction_worker c0_def)
  have "waiting c0 k h (request_id c0) due (snd (getAIAction gameState playerId s))"
    unfolding c0_def k_def h_def due_def by (rule getAIAction_waiting [OF assms(1-4)])
  from waiting_run [OF this] assms(5)
  have w: "waiting c0 k h (request_id c0) due s2"
    by (simp add: s2_def c0_def h_def)
  then have unsettled: "settlements_since k (request_id c0) s2 = []"
    and armed: "map_of (timers s2) h = Some (request_id c0, due)"
    by (simp_all add: waiting_def)
  have early: "timer_fires h s2 = s2" if "now s2 < due"
    using waiting_early [OF w that] .
  have late: "settlements_since k (request_id c0) s4
                = [(request_id c0, Rejected (Error ''AI computation timeout''))] \<and>
              map_get (pendingRequests s4) (request_id c0) = None \<and>
              handleMessage (AI_ACTION_RESULT (request_id c0) action) s4 = s4 \<and>
              handleMessage (AI_ERROR (request_id c0) err) s4 = s4"
    if "due \<le> now s2"
  proof -
    from waiting_fires [OF w that]
    have x: "expired c0 k (request_id c0) (timer_fires h s2)"
      and one: "settlements_since k (request_id c0) (timer_fires h s2)
                  = [(request_id c0, Rejected (Error ''AI computation timeout''))]"
      by simp_all
    from expired_run [OF x, of post]
    have x4: "expired c0 k (request_id c0) s4"
      and same: "settlements_since k (request_id c0) s4
                   = settlements_since k (request_id c0) (timer_fires h s2)"
      by (simp_all add: s4_def)
    from expired_late_reply [OF x4] same one show ?thesis by simp
  qed
  from call unsettled armed early late show ?thesis
    unfolding c0_def k_def h_def due_def s2_def s4_def by blast
qed

theorem request_timeout_witness:
  "settlements_since 0 ''ai_request_0''
     (run_proxy [Message (AI_ACTION_RESULT ''ai_request_0'' ''late'')]
        (timer_fires 0 (run_proxy [Advance 30000] (snd (getAIAction ''state'' 1 ready_proxy)))))
   = [(''ai_request_0'', Rejected (Error ''AI computation timeout''))]"
proof -
  have wf: "proxy_wf ready_proxy" and ready: "isReady ready_proxy" "useWorker ready_proxy"
    "worker ready_proxy"
    by (simp_all add: proxy_eval)
  have quiet: "list_all (\<lambda>e. \<not> answers (request_id (requestIdCounter ready_proxy)) e \<and>
                      e \<noteq> TimerFires (nextTimer ready_proxy)) [Advance 30000]"
    by simp
  have due: "now ready_proxy + 30000
               \<le> now (run_proxy [Advance 30000] (snd (getAIAction ''state'' 1 ready_proxy)))"
    by (simp add: proxy_eval)
  have rid: "request_id (requestIdCounter ready_proxy) = ''ai_request_0''"
    and k: "length (settled ready_proxy) = 0" and h: "nextTimer ready_proxy = 0"
    by (simp_all add: proxy_eval)
  from request_timeout [OF wf ready quiet, of "''state''" 1
      "[Message (AI_ACTION_RESULT ''ai_request_0'' ''late'')]" "''late''" "''late''"] due
  show ?thesis unfolding rid k h by blast
qed

text \<open>
  The claim as the specification states it fails when the worker crashes before the
  deadline: the request receives no reply, and it is rejected with the crash error,
  its timer is cleared, and no timeout error follows.
\<close>

theorem request_timeout_counterexample:
  "\<not> replies_to ''ai_request_0'' WorkerCrash \<and>
   \<not> replies_to ''ai_request_0'' (Advance 30000) \<and>
   \<not> replies_to ''ai_request_0'' (TimerFires 0) \<and>
   fst (getAIAction ''state'' 1 ready_proxy) = RequestPromise ''ai_request_0'' \<and>
   settled (run_proxy [WorkerCrash, Advance 30000, TimerFires 0]
              (snd (getAIAction ''state'' 1 ready_proxy)))
     = [(''ai_request_0'', Rejected (Error ''Worker crashed''))]"
  by (simp add: proxy_eval)

text \<open>
  Claim C2, as the code has it.  \<^verbatim>\<open>terminate()\<close> releases the worker, marks the proxy
  as not ready and empties the table of pending requests; it settles no request and
  leaves the timers armed.
\<close>

theorem terminate_drops_pending:
  "worker (terminate s) = False \<and> isReady (terminate s) = False \<and>
   pendingRequests (terminate s) = [] \<and>
   settled (terminate s) = settled s \<and> timers (terminate s) = timers s"
  by (simp add: terminate_def Let_def)

text \<open>
  The claim as the specification states it fails: a request pending at
  \<^verbatim>\<open>terminate()\<close> is not rejected by it; its timer stays armed and rejects it with
  the timeout error 30000 ms after the request was made.
\<close>

theorem terminate_counterexample:
  "pendingRequests (snd (getAIAction ''state'' 1 ready_proxy)) = [(''ai_request_0'', 0)] \<and>
   settled (terminate (snd (getAIAction ''state'' 1 ready_proxy))) = [] \<and>
   timers (terminate (snd (getAIAction ''state'' 1 ready_proxy))) = [(0, ''ai_request_0'', 30000)] \<and>
   settled (run_proxy [GetAIAction ''state'' 1, Terminate, Advance 30000, TimerFires 0] ready_proxy)
     = [(''ai_request_0'', Rejected (Error ''AI computation timeout''))]"
  by (simp add: proxy_eval)

end
